theory Spec2Isabelle
  imports Main "HOL-Library.Word"
begin

unbundle bit_operations_syntax

section \<open>Ring storage and cursor arithmetic\<close>

text \<open>
  Cursors are \<^verbatim>\<open>std::uint64_t\<close> values: \<open>+\<close> and \<open>-\<close> wrap modulo \<open>2 ^ 64\<close> and
  \<open>\<le>\<close>, \<open><\<close> compare unsigned. The template parameter \<^verbatim>\<open>NumSlots\<close> is a
  \<^verbatim>\<open>std::size_t\<close>, taken as 64 bits wide; every function of the queue takes it as
  its first argument. The two \<^verbatim>\<open>static_assert\<close>s on it are \<open>valid_NumSlots\<close>.
\<close>

type_synonym u64 = "64 word"

definition valid_NumSlots :: "u64 \<Rightarrow> bool" where
  "valid_NumSlots NumSlots \<longleftrightarrow> NumSlots > 0 \<and> NumSlots AND (NumSlots - 1) = 0"

definition mask_slots :: "u64 \<Rightarrow> u64" where
  "mask_slots NumSlots = NumSlots - 1"

definition to_index :: "u64 \<Rightarrow> u64 \<Rightarrow> nat" where
  "to_index NumSlots i = unat (i AND mask_slots NumSlots)"

section \<open>The single-producer single-consumer queue\<close>

record 'a SPSCQueue =
  m_buffer :: "'a list"
  m_head :: u64
  m_tail :: u64
  m_producer_claimed :: bool
  m_consumer_claimed :: bool

text \<open>
  A default-constructed queue: the buffer holds \<^verbatim>\<open>NumSlots\<close> value-initialised
  payloads (\<open>d\<close> stands for \<^verbatim>\<open>T{}\<close>), both cursors are zero, no role is claimed.
\<close>

definition SPSCQueue_init :: "u64 \<Rightarrow> 'a \<Rightarrow> 'a SPSCQueue" where
  "SPSCQueue_init NumSlots d =
     \<lparr>m_buffer = replicate (unat NumSlots) d, m_head = 0, m_tail = 0,
      m_producer_claimed = False, m_consumer_claimed = False\<rparr>"

text \<open>
  \<^verbatim>\<open>push_impl(const T&)\<close> and \<^verbatim>\<open>push_impl(T&&)\<close> have the same body; on a trivially
  copyable payload moving is copying, so one function models both.
\<close>

definition push_impl :: "u64 \<Rightarrow> 'a \<Rightarrow> 'a SPSCQueue \<Rightarrow> bool \<times> 'a SPSCQueue" where
  "push_impl NumSlots item q =
     (let head = m_head q; tail = m_tail q in
      if head - tail \<ge> NumSlots then (False, q)
      else (True, q\<lparr>m_buffer := (m_buffer q)[to_index NumSlots head := item],
                     m_head := head + 1\<rparr>))"

definition pop_impl :: "u64 \<Rightarrow> 'a SPSCQueue \<Rightarrow> 'a option \<times> 'a SPSCQueue" where
  "pop_impl NumSlots q =
     (let head = m_head q; tail = m_tail q in
      if tail \<ge> head then (None, q)
      else (Some (m_buffer q ! to_index NumSlots tail), q\<lparr>m_tail := tail + 1\<rparr>))"

text \<open>
  \<^verbatim>\<open>try_pop_impl(T& out)\<close>: the caller's storage is the argument \<open>out\<close>; the result
  is the returned flag, the storage afterwards and the queue afterwards.
\<close>

definition try_pop_impl :: "u64 \<Rightarrow> 'a \<Rightarrow> 'a SPSCQueue \<Rightarrow> bool \<times> 'a \<times> 'a SPSCQueue" where
  "try_pop_impl NumSlots out q =
     (let head = m_head q; tail = m_tail q in
      if tail \<ge> head then (False, out, q)
      else (True, m_buffer q ! to_index NumSlots tail, q\<lparr>m_tail := tail + 1\<rparr>))"

definition peek :: "u64 \<Rightarrow> 'a SPSCQueue \<Rightarrow> 'a option" where
  "peek NumSlots q =
     (let head = m_head q; tail = m_tail q in
      if tail \<ge> head then None else Some (m_buffer q ! to_index NumSlots tail))"

definition count_snapshot_impl :: "u64 \<Rightarrow> 'a SPSCQueue \<Rightarrow> u64" where
  "count_snapshot_impl NumSlots q =
     (let head = m_head q; tail = m_tail q; diff = head - tail in
      if diff > NumSlots then NumSlots else head - tail)"


subsection \<open>Claiming and releasing the two roles\<close>

text \<open>
  \<^verbatim>\<open>make_producer\<close> and \<^verbatim>\<open>make_consumer\<close> are a strong compare-and-exchange of
  the claim flag from \<^verbatim>\<open>false\<close> to \<^verbatim>\<open>true\<close>; the flag returned here says whether a
  handle was returned. The handle object itself lives in the object store of
  section \<open>Handles\<close>. A handle that holds the queue stores \<^verbatim>\<open>false\<close> into the flag
  when it is destroyed or assigned over.
\<close>

definition make_producer :: "'a SPSCQueue \<Rightarrow> bool \<times> 'a SPSCQueue" where
  "make_producer q =
     (if m_producer_claimed q \<noteq> False then (False, q)
      else (True, q\<lparr>m_producer_claimed := True\<rparr>))"

definition make_consumer :: "'a SPSCQueue \<Rightarrow> bool \<times> 'a SPSCQueue" where
  "make_consumer q =
     (if m_consumer_claimed q \<noteq> False then (False, q)
      else (True, q\<lparr>m_consumer_claimed := True\<rparr>))"

definition release_producer :: "'a SPSCQueue \<Rightarrow> 'a SPSCQueue" where
  "release_producer q = q\<lparr>m_producer_claimed := False\<rparr>"

definition release_consumer :: "'a SPSCQueue \<Rightarrow> 'a SPSCQueue" where
  "release_consumer q = q\<lparr>m_consumer_claimed := False\<rparr>"

subsection \<open>Runs of the queue\<close>

text \<open>
  A run is a sequence of calls on one queue, each executed to completion before the
  next starts. Every call is recorded with what it returned.
\<close>

datatype 'a spsc_op =
    Push 'a | Pop | TryPop 'a
  | MakeProducer | MakeConsumer | DropProducer | DropConsumer

datatype 'a spsc_event =
    PushOk 'a | PushFull 'a | PopOk 'a | PopEmpty | Claim bool | Release

fun spsc_step :: "u64 \<Rightarrow> 'a spsc_op \<Rightarrow> 'a SPSCQueue \<Rightarrow> 'a spsc_event \<times> 'a SPSCQueue" where
  "spsc_step NumSlots (Push x) q =
     (case push_impl NumSlots x q of (ok, q') \<Rightarrow> (if ok then PushOk x else PushFull x, q'))"
| "spsc_step NumSlots Pop q =
     (case pop_impl NumSlots q of (r, q') \<Rightarrow> (case r of Some v \<Rightarrow> PopOk v | None \<Rightarrow> PopEmpty, q'))"
| "spsc_step NumSlots (TryPop out) q =
     (case try_pop_impl NumSlots out q of (ok, out', q') \<Rightarrow> (if ok then PopOk out' else PopEmpty, q'))"
| "spsc_step NumSlots MakeProducer q = (case make_producer q of (ok, q') \<Rightarrow> (Claim ok, q'))"
| "spsc_step NumSlots MakeConsumer q = (case make_consumer q of (ok, q') \<Rightarrow> (Claim ok, q'))"
| "spsc_step NumSlots DropProducer q = (Release, release_producer q)"
| "spsc_step NumSlots DropConsumer q = (Release, release_consumer q)"

fun spsc_run :: "u64 \<Rightarrow> 'a spsc_op list \<Rightarrow> 'a SPSCQueue \<Rightarrow> 'a spsc_event list \<times> 'a SPSCQueue" where
  "spsc_run NumSlots [] q = ([], q)"
| "spsc_run NumSlots (c # cs) q =
     (case spsc_step NumSlots c q of (e, q') \<Rightarrow>
        (case spsc_run NumSlots cs q' of (es, q'') \<Rightarrow> (e # es, q'')))"

fun pushed :: "'a spsc_event list \<Rightarrow> 'a list" where
  "pushed [] = []"
| "pushed (PushOk x # es) = x # pushed es"
| "pushed (_ # es) = pushed es"

fun popped :: "'a spsc_event list \<Rightarrow> 'a list" where
  "popped [] = []"
| "popped (PopOk x # es) = x # popped es"
| "popped (_ # es) = popped es"

text \<open>
  The contents of a queue as a list \<open>ps\<close>, oldest first: \<open>ps\<close> has as many items as the
  cursors are apart, at most \<^verbatim>\<open>NumSlots\<close>, and item \<open>k\<close> sits in the slot of cursor
  \<open>tail + k\<close>.
\<close>

definition holds :: "u64 \<Rightarrow> 'a list \<Rightarrow> u64 \<Rightarrow> u64 \<Rightarrow> 'a list \<Rightarrow> bool" where
  "holds NumSlots buf t h ps \<longleftrightarrow>
     length buf = unat NumSlots \<and> unat (h - t) = length ps \<and> length ps \<le> unat NumSlots \<and>
     (\<forall>k < length ps. buf ! to_index NumSlots (t + of_nat k) = ps ! k)"

text \<open>What a run was asked to do: the values handed to push, and how many pops.\<close>

fun pushes_of :: "'a spsc_op list \<Rightarrow> 'a list" where
  "pushes_of [] = []"
| "pushes_of (Push x # cs) = x # pushes_of cs"
| "pushes_of (_ # cs) = pushes_of cs"

fun pops_of :: "'a spsc_op list \<Rightarrow> nat" where
  "pops_of [] = 0"
| "pops_of (Pop # cs) = Suc (pops_of cs)"
| "pops_of (TryPop out # cs) = Suc (pops_of cs)"
| "pops_of (_ # cs) = pops_of cs"

fun failed :: "'a spsc_event \<Rightarrow> bool" where
  "failed (PushFull x) = True"
| "failed PopEmpty = True"
| "failed _ = False"

section \<open>The single-producer multiple-consumer broadcast queue\<close>

datatype SlotState = Free | Initializing | Active

record ConsumerSlot =
  state :: SlotState
  tail :: u64

text \<open>
  The template parameter \<^verbatim>\<open>MaxConsumers\<close> is the length of \<open>m_slots\<close>. Fields and
  functions that the two queues share by name carry the suffix \<open>_mc\<close> here.
\<close>

record 'a SPMCQueue =
  m_buffer_mc :: "'a list"
  m_head_mc :: u64
  m_slots :: "ConsumerSlot list"
  m_producer_claimed_mc :: bool

definition SPMCQueue_init :: "u64 \<Rightarrow> nat \<Rightarrow> 'a \<Rightarrow> 'a SPMCQueue" where
  "SPMCQueue_init NumSlots MaxConsumers d =
     \<lparr>m_buffer_mc = replicate (unat NumSlots) d, m_head_mc = 0,
      m_slots = replicate MaxConsumers \<lparr>state = Free, tail = 0\<rparr>,
      m_producer_claimed_mc = False\<rparr>"

text \<open>The loop of \<^verbatim>\<open>min_tail_snapshot\<close> carries \<^verbatim>\<open>min_tail\<close> and \<^verbatim>\<open>any\<close>.\<close>

fun min_tail_loop :: "ConsumerSlot list \<Rightarrow> u64 \<times> bool \<Rightarrow> u64 \<times> bool" where
  "min_tail_loop [] (min_tail, any) = (min_tail, any)"
| "min_tail_loop (slot # slots) (min_tail, any) =
     (if state slot = Active
      then (let t = tail slot
            in min_tail_loop slots (if t < min_tail then t else min_tail, True))
      else min_tail_loop slots (min_tail, any))"

definition min_tail_snapshot :: "u64 \<Rightarrow> 'a SPMCQueue \<Rightarrow> u64" where
  "min_tail_snapshot head q =
     (case min_tail_loop (m_slots q) (head, False) of
        (min_tail, any) \<Rightarrow> if any then min_tail else head)"

definition push_impl_mc :: "u64 \<Rightarrow> 'a \<Rightarrow> 'a SPMCQueue \<Rightarrow> bool \<times> 'a SPMCQueue" where
  "push_impl_mc NumSlots item q =
     (let head = m_head_mc q; min_tail = min_tail_snapshot head q in
      if head - min_tail \<ge> NumSlots then (False, q)
      else (True, q\<lparr>m_buffer_mc := (m_buffer_mc q)[to_index NumSlots head := item],
                     m_head_mc := head + 1\<rparr>))"

text \<open>
  The functions of one consumer take the index of its slot. \<^verbatim>\<open>m_slots[idx]\<close> is
  defined for \<open>idx < MaxConsumers\<close> only; outside that range the call has no defined
  result, which is \<open>None\<close> here.
\<close>

definition store_tail :: "nat \<Rightarrow> u64 \<Rightarrow> 'a SPMCQueue \<Rightarrow> 'a SPMCQueue" where
  "store_tail idx v q = q\<lparr>m_slots := (m_slots q)[idx := (m_slots q ! idx)\<lparr>tail := v\<rparr>]\<rparr>"

definition store_state :: "nat \<Rightarrow> SlotState \<Rightarrow> 'a SPMCQueue \<Rightarrow> 'a SPMCQueue" where
  "store_state idx v q = q\<lparr>m_slots := (m_slots q)[idx := (m_slots q ! idx)\<lparr>state := v\<rparr>]\<rparr>"

definition pop_impl_mc :: "u64 \<Rightarrow> nat \<Rightarrow> 'a SPMCQueue \<Rightarrow> ('a option \<times> 'a SPMCQueue) option" where
  "pop_impl_mc NumSlots idx q =
     (if idx < length (m_slots q) then
        Some (let head = m_head_mc q; t = tail (m_slots q ! idx) in
              if t \<ge> head then (None, q)
              else (Some (m_buffer_mc q ! to_index NumSlots t), store_tail idx (t + 1) q))
      else None)"

definition try_pop_impl_mc ::
    "u64 \<Rightarrow> 'a \<Rightarrow> nat \<Rightarrow> 'a SPMCQueue \<Rightarrow> (bool \<times> 'a \<times> 'a SPMCQueue) option" where
  "try_pop_impl_mc NumSlots out idx q =
     (if idx < length (m_slots q) then
        Some (let head = m_head_mc q; t = tail (m_slots q ! idx) in
              if t \<ge> head then (False, out, q)
              else (True, m_buffer_mc q ! to_index NumSlots t, store_tail idx (t + 1) q))
      else None)"

definition peek_mc :: "u64 \<Rightarrow> nat \<Rightarrow> 'a SPMCQueue \<Rightarrow> 'a option option" where
  "peek_mc NumSlots idx q =
     (if idx < length (m_slots q) then
        Some (let head = m_head_mc q; t = tail (m_slots q ! idx) in
              if t \<ge> head then None else Some (m_buffer_mc q ! to_index NumSlots t))
      else None)"

text \<open>\<^verbatim>\<open>count_snapshot_impl(idx)\<close>, of a consumer, and \<^verbatim>\<open>count_snapshot_impl()\<close>, of the producer.\<close>

definition count_snapshot_impl_idx :: "u64 \<Rightarrow> nat \<Rightarrow> 'a SPMCQueue \<Rightarrow> u64 option" where
  "count_snapshot_impl_idx NumSlots idx q =
     (if idx < length (m_slots q) then
        Some (let head = m_head_mc q; t = tail (m_slots q ! idx); diff = head - t in
              if diff > NumSlots then NumSlots else diff)
      else None)"

definition count_snapshot_impl_mc :: "u64 \<Rightarrow> 'a SPMCQueue \<Rightarrow> u64" where
  "count_snapshot_impl_mc NumSlots q =
     (let head = m_head_mc q; min_tail = min_tail_snapshot head q; diff = head - min_tail in
      if diff > NumSlots then NumSlots else diff)"

text \<open>
  \<^verbatim>\<open>make_consumer\<close> is four kinds of atomic step, and other threads run between them:
  it loads the producer cursor once (\<open>make_consumer_load\<close>); it tries the slots in index
  order with a compare-and-exchange that succeeds on a slot that is \<open>Free\<close> and makes it
  \<open>Initializing\<close> (\<open>make_consumer_cas\<close>); on the slot it got it stores the cursor loaded
  at the start (\<open>store_tail\<close>) and then \<open>Active\<close> (\<open>store_state\<close>). Nothing is read
  again between the load and the two stores.
\<close>

definition make_consumer_load :: "'a SPMCQueue \<Rightarrow> u64" where
  "make_consumer_load q = m_head_mc q"

definition make_consumer_cas :: "nat \<Rightarrow> 'a SPMCQueue \<Rightarrow> bool \<times> 'a SPMCQueue" where
  "make_consumer_cas i q =
     (if state (m_slots q ! i) = Free then (True, store_state i Initializing q) else (False, q))"

text \<open>
  \<open>make_consumer_mc\<close> is a call of \<^verbatim>\<open>make_consumer\<close> that runs all its steps with no
  step of another thread in between. The result is the slot index of the handle
  returned, if any. The steps of a call that other threads interleave with are
  \<open>spmc_atom\<close> below.
\<close>

fun make_consumer_scan :: "u64 \<Rightarrow> nat list \<Rightarrow> 'a SPMCQueue \<Rightarrow> nat option \<times> 'a SPMCQueue" where
  "make_consumer_scan head [] q = (None, q)"
| "make_consumer_scan head (i # is) q =
     (case make_consumer_cas i q of
        (True, q') \<Rightarrow> (Some i, store_state i Active (store_tail i head q'))
      | (False, q') \<Rightarrow> make_consumer_scan head is q')"

definition make_consumer_mc :: "'a SPMCQueue \<Rightarrow> nat option \<times> 'a SPMCQueue" where
  "make_consumer_mc q =
     (let head = make_consumer_load q in make_consumer_scan head [0 ..< length (m_slots q)] q)"

text \<open>
  What a consumer handle that holds slot \<open>idx\<close> does to the queue when it is destroyed
  (\<open>consumer_dtor\<close>: the cursor is reset, then the slot is freed) and when another handle
  is move-assigned over it (\<open>consumer_overwritten\<close>: the slot is freed, the cursor stays).
\<close>

definition consumer_dtor :: "nat \<Rightarrow> 'a SPMCQueue \<Rightarrow> 'a SPMCQueue option" where
  "consumer_dtor idx q =
     (if idx < length (m_slots q) then Some (store_state idx Free (store_tail idx 0 q))
      else None)"

definition consumer_overwritten :: "nat \<Rightarrow> 'a SPMCQueue \<Rightarrow> 'a SPMCQueue option" where
  "consumer_overwritten idx q =
     (if idx < length (m_slots q) then Some (store_state idx Free q) else None)"

definition make_producer_mc :: "'a SPMCQueue \<Rightarrow> bool \<times> 'a SPMCQueue" where
  "make_producer_mc q =
     (if m_producer_claimed_mc q \<noteq> False then (False, q)
      else (True, q\<lparr>m_producer_claimed_mc := True\<rparr>))"

definition release_producer_mc :: "'a SPMCQueue \<Rightarrow> 'a SPMCQueue" where
  "release_producer_mc q = q\<lparr>m_producer_claimed_mc := False\<rparr>"

subsection \<open>Runs of the broadcast queue\<close>

datatype 'a spmc_op =
    PushMc 'a | PopMc nat | TryPopMc 'a nat
  | Attach | Detach nat | Overwrite nat
  | MakeProducerMc | DropProducerMc

datatype 'a spmc_event =
    Accepted 'a | Full 'a | Got nat 'a | Empty nat
  | Attached nat | NoFreeSlot | Detached nat | ClaimMc bool | ReleaseMc

fun spmc_step :: "u64 \<Rightarrow> 'a spmc_op \<Rightarrow> 'a SPMCQueue \<Rightarrow> ('a spmc_event \<times> 'a SPMCQueue) option" where
  "spmc_step NumSlots (PushMc x) q =
     (case push_impl_mc NumSlots x q of (ok, q') \<Rightarrow> Some (if ok then Accepted x else Full x, q'))"
| "spmc_step NumSlots (PopMc idx) q =
     (case pop_impl_mc NumSlots idx q of
        None \<Rightarrow> None
      | Some (r, q') \<Rightarrow> Some (case r of Some v \<Rightarrow> Got idx v | None \<Rightarrow> Empty idx, q'))"
| "spmc_step NumSlots (TryPopMc out idx) q =
     (case try_pop_impl_mc NumSlots out idx q of
        None \<Rightarrow> None
      | Some (ok, out', q') \<Rightarrow> Some (if ok then Got idx out' else Empty idx, q'))"
| "spmc_step NumSlots Attach q =
     (case make_consumer_mc q of (r, q') \<Rightarrow>
        Some (case r of Some idx \<Rightarrow> Attached idx | None \<Rightarrow> NoFreeSlot, q'))"
| "spmc_step NumSlots (Detach idx) q =
     (case consumer_dtor idx q of None \<Rightarrow> None | Some q' \<Rightarrow> Some (Detached idx, q'))"
| "spmc_step NumSlots (Overwrite idx) q =
     (case consumer_overwritten idx q of None \<Rightarrow> None | Some q' \<Rightarrow> Some (Detached idx, q'))"
| "spmc_step NumSlots MakeProducerMc q =
     (case make_producer_mc q of (ok, q') \<Rightarrow> Some (ClaimMc ok, q'))"
| "spmc_step NumSlots DropProducerMc q = Some (ReleaseMc, release_producer_mc q)"

fun spmc_run ::
    "u64 \<Rightarrow> 'a spmc_op list \<Rightarrow> 'a SPMCQueue \<Rightarrow> ('a spmc_event list \<times> 'a SPMCQueue) option" where
  "spmc_run NumSlots [] q = Some ([], q)"
| "spmc_run NumSlots (c # cs) q =
     (case spmc_step NumSlots c q of
        None \<Rightarrow> None
      | Some (e, q') \<Rightarrow>
          (case spmc_run NumSlots cs q' of
             None \<Rightarrow> None
           | Some (es, q'') \<Rightarrow> Some (e # es, q'')))"

fun accepted :: "'a spmc_event list \<Rightarrow> 'a list" where
  "accepted [] = []"
| "accepted (Accepted x # es) = x # accepted es"
| "accepted (_ # es) = accepted es"

fun got :: "nat \<Rightarrow> 'a spmc_event list \<Rightarrow> 'a list" where
  "got i [] = []"
| "got i (Got j x # es) = (if j = i then x # got i es else got i es)"
| "got i (_ # es) = got i es"

text \<open>The calls that a consumer's own handle makes on slot \<open>i\<close>.\<close>

fun pops_slot :: "nat \<Rightarrow> 'a spmc_op \<Rightarrow> bool" where
  "pops_slot i (PopMc j) = (j = i)"
| "pops_slot i (TryPopMc out j) = (j = i)"
| "pops_slot i _ = False"

fun frees_slot :: "nat \<Rightarrow> 'a spmc_op \<Rightarrow> bool" where
  "frees_slot i (Detach j) = (j = i)"
| "frees_slot i (Overwrite j) = (j = i)"
| "frees_slot i _ = False"

subsection \<open>Runs in which an attach is interleaved with other calls\<close>

text \<open>
  The local variables of a call of \<^verbatim>\<open>make_consumer\<close> in flight: the cursor it loaded,
  the loop index, and how far it got. An atom is a whole call of some thread, or the
  next step of the attach in flight: the load, one compare-and-exchange of the loop
  (after the last slot the loop ends and the call returns nothing), the store of the
  cursor, the store of \<open>Active\<close>.
\<close>

datatype attach_pc = Scanning | Claimed | TailStored

record attach_frame =
  af_head :: u64
  af_i :: nat
  af_pc :: attach_pc

datatype 'a spmc_atom =
    Whole "'a spmc_op" | AttachLoad | AttachCas | AttachStoreTail | AttachStoreActive

fun spmc_atom_step ::
    "u64 \<Rightarrow> 'a spmc_atom \<Rightarrow> 'a SPMCQueue \<times> attach_frame option \<Rightarrow>
       ('a spmc_event list \<times> 'a SPMCQueue \<times> attach_frame option) option" where
  "spmc_atom_step NumSlots (Whole c) (q, fr) =
     (case spmc_step NumSlots c q of None \<Rightarrow> None | Some (e, q') \<Rightarrow> Some ([e], q', fr))"
| "spmc_atom_step NumSlots AttachLoad (q, fr) =
     (case fr of
        None \<Rightarrow> Some ([], q, Some \<lparr>af_head = make_consumer_load q, af_i = 0, af_pc = Scanning\<rparr>)
      | Some f \<Rightarrow> None)"
| "spmc_atom_step NumSlots AttachCas (q, fr) =
     (case fr of
        None \<Rightarrow> None
      | Some f \<Rightarrow>
          if af_pc f \<noteq> Scanning then None
          else if af_i f < length (m_slots q) then
            (case make_consumer_cas (af_i f) q of
               (True, q') \<Rightarrow> Some ([], q', Some (f\<lparr>af_pc := Claimed\<rparr>))
             | (False, q') \<Rightarrow> Some ([], q', Some (f\<lparr>af_i := af_i f + 1\<rparr>)))
          else Some ([NoFreeSlot], q, None))"
| "spmc_atom_step NumSlots AttachStoreTail (q, fr) =
     (case fr of
        None \<Rightarrow> None
      | Some f \<Rightarrow>
          if af_pc f = Claimed
          then Some ([], store_tail (af_i f) (af_head f) q, Some (f\<lparr>af_pc := TailStored\<rparr>))
          else None)"
| "spmc_atom_step NumSlots AttachStoreActive (q, fr) =
     (case fr of
        None \<Rightarrow> None
      | Some f \<Rightarrow>
          if af_pc f = TailStored
          then Some ([Attached (af_i f)], store_state (af_i f) Active q, None)
          else None)"

fun spmc_atoms ::
    "u64 \<Rightarrow> 'a spmc_atom list \<Rightarrow> 'a SPMCQueue \<times> attach_frame option \<Rightarrow>
       ('a spmc_event list \<times> 'a SPMCQueue \<times> attach_frame option) option" where
  "spmc_atoms NumSlots [] (q, fr) = Some ([], q, fr)"
| "spmc_atoms NumSlots (a # as) (q, fr) =
     (case spmc_atom_step NumSlots a (q, fr) of
        None \<Rightarrow> None
      | Some (es, q', fr') \<Rightarrow>
          (case spmc_atoms NumSlots as (q', fr') of
             None \<Rightarrow> None
           | Some (es', q'', fr'') \<Rightarrow> Some (es @ es', q'', fr'')))"

text \<open>
  Slot \<open>i\<close> is held by a consumer; its cursor; and what that consumer still has to
  receive: the slot is active, its cursor is not ahead of the producer's, and the ring
  holds the items \<open>ps\<close> between the two cursors.
\<close>

definition active :: "nat \<Rightarrow> 'a SPMCQueue \<Rightarrow> bool" where
  "active i q \<longleftrightarrow> i < length (m_slots q) \<and> state (m_slots q ! i) = Active"

definition tail_of :: "nat \<Rightarrow> 'a SPMCQueue \<Rightarrow> u64" where
  "tail_of i q = tail (m_slots q ! i)"

definition slot_view :: "u64 \<Rightarrow> nat \<Rightarrow> 'a SPMCQueue \<Rightarrow> 'a list \<Rightarrow> bool" where
  "slot_view NumSlots i q ps \<longleftrightarrow>
     active i q \<and> tail_of i q \<le> m_head_mc q \<and>
     holds NumSlots (m_buffer_mc q) (tail_of i q) (m_head_mc q) ps"

text \<open>
  Every active cursor is at most the producer cursor and at most \<^verbatim>\<open>NumSlots\<close> behind it.
\<close>

definition capacity_ok :: "u64 \<Rightarrow> 'a SPMCQueue \<Rightarrow> bool" where
  "capacity_ok NumSlots q \<longleftrightarrow>
     (\<forall>i. active i q \<longrightarrow> tail_of i q \<le> m_head_mc q \<and> m_head_mc q - tail_of i q \<le> NumSlots)"

section \<open>Handles\<close>

text \<open>
  Queues and handles are objects with an address. A handle holds a pointer to its queue
  (\<open>None\<close> is \<^verbatim>\<open>nullptr\<close>); the handle stores below hold the handles that are alive.
  A member function takes the address \<open>this\<close> of its object and the world, and gives the
  world afterwards; it gives \<open>None\<close> where the call is not possible in a program: on an
  object that is not alive, or to construct an object where one is alive.
\<close>

type_synonym qref = nat
type_synonym href = nat

subsection \<open>Handles of the single-consumer queue\<close>

text \<open>\<^verbatim>\<open>Producer\<close> and \<^verbatim>\<open>Consumer\<close> have the one member \<^verbatim>\<open>m_queue\<close>.\<close>

type_synonym Producer = "qref option"
type_synonym Consumer = "qref option"

record 'a SPSC_world =
  queues :: "qref \<Rightarrow> 'a SPSCQueue"
  producers :: "href \<rightharpoonup> Producer"
  consumers :: "href \<rightharpoonup> Consumer"

definition SPSC_world_init :: "u64 \<Rightarrow> 'a \<Rightarrow> 'a SPSC_world" where
  "SPSC_world_init NumSlots d =
     \<lparr>queues = (\<lambda>qa. SPSCQueue_init NumSlots d), producers = Map.empty, consumers = Map.empty\<rparr>"

definition on_queue :: "qref \<Rightarrow> ('a SPSCQueue \<Rightarrow> 'a SPSCQueue) \<Rightarrow> 'a SPSC_world \<Rightarrow> 'a SPSC_world" where
  "on_queue qa f w = w\<lparr>queues := (queues w)(qa := f (queues w qa))\<rparr>"

definition Producer_ctor :: "href \<Rightarrow> qref \<Rightarrow> 'a SPSC_world \<Rightarrow> 'a SPSC_world option" where
  "Producer_ctor this qa w =
     (if this \<in> dom (producers w) then None
      else Some (w\<lparr>producers := (producers w)(this \<mapsto> Some qa)\<rparr>))"

definition Producer_dtor :: "href \<Rightarrow> 'a SPSC_world \<Rightarrow> 'a SPSC_world option" where
  "Producer_dtor this w =
     (case producers w this of
        None \<Rightarrow> None
      | Some m_queue \<Rightarrow>
          (let w1 = (case m_queue of None \<Rightarrow> w | Some qa \<Rightarrow> on_queue qa release_producer w)
           in Some (w1\<lparr>producers := (producers w1)(this := None)\<rparr>)))"

definition Producer_move_ctor :: "href \<Rightarrow> href \<Rightarrow> 'a SPSC_world \<Rightarrow> 'a SPSC_world option" where
  "Producer_move_ctor this other w =
     (case producers w other of
        None \<Rightarrow> None
      | Some other_m_queue \<Rightarrow>
          if this \<in> dom (producers w) then None
          else Some (w\<lparr>producers := (producers w)(this \<mapsto> other_m_queue, other \<mapsto> None)\<rparr>))"

definition Producer_move_assign :: "href \<Rightarrow> href \<Rightarrow> 'a SPSC_world \<Rightarrow> 'a SPSC_world option" where
  "Producer_move_assign this other w =
     (case (producers w this, producers w other) of
        (Some m_queue, Some other_m_queue) \<Rightarrow>
          if this \<noteq> other then
            (let w1 = (case m_queue of None \<Rightarrow> w | Some qa \<Rightarrow> on_queue qa release_producer w)
             in Some (w1\<lparr>producers := (producers w1)(this \<mapsto> other_m_queue, other \<mapsto> None)\<rparr>))
          else Some w
      | _ \<Rightarrow> None)"

definition Consumer_ctor :: "href \<Rightarrow> qref \<Rightarrow> 'a SPSC_world \<Rightarrow> 'a SPSC_world option" where
  "Consumer_ctor this qa w =
     (if this \<in> dom (consumers w) then None
      else Some (w\<lparr>consumers := (consumers w)(this \<mapsto> Some qa)\<rparr>))"

definition Consumer_dtor :: "href \<Rightarrow> 'a SPSC_world \<Rightarrow> 'a SPSC_world option" where
  "Consumer_dtor this w =
     (case consumers w this of
        None \<Rightarrow> None
      | Some m_queue \<Rightarrow>
          (let w1 = (case m_queue of None \<Rightarrow> w | Some qa \<Rightarrow> on_queue qa release_consumer w)
           in Some (w1\<lparr>consumers := (consumers w1)(this := None)\<rparr>)))"

definition Consumer_move_ctor :: "href \<Rightarrow> href \<Rightarrow> 'a SPSC_world \<Rightarrow> 'a SPSC_world option" where
  "Consumer_move_ctor this other w =
     (case consumers w other of
        None \<Rightarrow> None
      | Some other_m_queue \<Rightarrow>
          if this \<in> dom (consumers w) then None
          else Some (w\<lparr>consumers := (consumers w)(this \<mapsto> other_m_queue, other \<mapsto> None)\<rparr>))"

definition Consumer_move_assign :: "href \<Rightarrow> href \<Rightarrow> 'a SPSC_world \<Rightarrow> 'a SPSC_world option" where
  "Consumer_move_assign this other w =
     (case (consumers w this, consumers w other) of
        (Some m_queue, Some other_m_queue) \<Rightarrow>
          if this \<noteq> other then
            (let w1 = (case m_queue of None \<Rightarrow> w | Some qa \<Rightarrow> on_queue qa release_consumer w)
             in Some (w1\<lparr>consumers := (consumers w1)(this \<mapsto> other_m_queue, other \<mapsto> None)\<rparr>))
          else Some w
      | _ \<Rightarrow> None)"

text \<open>
  \<^verbatim>\<open>make_producer\<close> and \<^verbatim>\<open>make_consumer\<close> of the queue at \<open>qa\<close>: when the claim
  succeeds, the handle returned is constructed at \<open>ret\<close>.
\<close>

definition make_producer_at :: "qref \<Rightarrow> href \<Rightarrow> 'a SPSC_world \<Rightarrow> (bool \<times> 'a SPSC_world) option" where
  "make_producer_at qa ret w =
     (case make_producer (queues w qa) of
        (False, q') \<Rightarrow> Some (False, w)
      | (True, q') \<Rightarrow>
          (case Producer_ctor ret qa (on_queue qa (\<lambda>q. q') w) of
             None \<Rightarrow> None
           | Some w' \<Rightarrow> Some (True, w')))"

definition make_consumer_at :: "qref \<Rightarrow> href \<Rightarrow> 'a SPSC_world \<Rightarrow> (bool \<times> 'a SPSC_world) option" where
  "make_consumer_at qa ret w =
     (case make_consumer (queues w qa) of
        (False, q') \<Rightarrow> Some (False, w)
      | (True, q') \<Rightarrow>
          (case Consumer_ctor ret qa (on_queue qa (\<lambda>q. q') w) of
             None \<Rightarrow> None
           | Some w' \<Rightarrow> Some (True, w')))"

text \<open>
  \<^verbatim>\<open>push\<close>, \<^verbatim>\<open>pop\<close> and \<^verbatim>\<open>try_pop\<close> of a handle assert that \<^verbatim>\<open>m_queue\<close> is not null
  and call the queue.
\<close>

definition Producer_push :: "u64 \<Rightarrow> href \<Rightarrow> 'a \<Rightarrow> 'a SPSC_world \<Rightarrow> (bool \<times> 'a SPSC_world) option" where
  "Producer_push NumSlots this item w =
     (case producers w this of
        Some (Some qa) \<Rightarrow>
          (case push_impl NumSlots item (queues w qa) of
             (ok, q') \<Rightarrow> Some (ok, on_queue qa (\<lambda>q. q') w))
      | _ \<Rightarrow> None)"

definition Consumer_pop :: "u64 \<Rightarrow> href \<Rightarrow> 'a SPSC_world \<Rightarrow> ('a option \<times> 'a SPSC_world) option" where
  "Consumer_pop NumSlots this w =
     (case consumers w this of
        Some (Some qa) \<Rightarrow>
          (case pop_impl NumSlots (queues w qa) of
             (r, q') \<Rightarrow> Some (r, on_queue qa (\<lambda>q. q') w))
      | _ \<Rightarrow> None)"

definition Consumer_try_pop ::
    "u64 \<Rightarrow> href \<Rightarrow> 'a \<Rightarrow> 'a SPSC_world \<Rightarrow> (bool \<times> 'a \<times> 'a SPSC_world) option" where
  "Consumer_try_pop NumSlots this out w =
     (case consumers w this of
        Some (Some qa) \<Rightarrow>
          (case try_pop_impl NumSlots out (queues w qa) of
             (ok, out', q') \<Rightarrow> Some (ok, out', on_queue qa (\<lambda>q. q') w))
      | _ \<Rightarrow> None)"

text \<open>
  A program is a sequence of such calls, on any queues and handles. The constructors
  \<^verbatim>\<open>Producer(SPSCQueue&)\<close> and \<^verbatim>\<open>Consumer(SPSCQueue&)\<close> are public members, so a
  program can call them itself (\<open>ConstructProducer\<close>, \<open>ConstructConsumer\<close>).
\<close>

datatype 'a spsc_call =
    CallMakeProducer qref href | CallMakeConsumer qref href
  | ConstructProducer href qref | ConstructConsumer href qref
  | DestroyProducer href | DestroyConsumer href
  | MoveProducer href href | MoveConsumer href href
  | AssignProducer href href | AssignConsumer href href
  | CallPush href 'a | CallPop href | CallTryPop href 'a

fun spsc_call_step :: "u64 \<Rightarrow> 'a spsc_call \<Rightarrow> 'a SPSC_world \<Rightarrow> 'a SPSC_world option" where
  "spsc_call_step NumSlots (CallMakeProducer qa ret) w = map_option snd (make_producer_at qa ret w)"
| "spsc_call_step NumSlots (CallMakeConsumer qa ret) w = map_option snd (make_consumer_at qa ret w)"
| "spsc_call_step NumSlots (ConstructProducer this qa) w = Producer_ctor this qa w"
| "spsc_call_step NumSlots (ConstructConsumer this qa) w = Consumer_ctor this qa w"
| "spsc_call_step NumSlots (DestroyProducer h) w = Producer_dtor h w"
| "spsc_call_step NumSlots (DestroyConsumer h) w = Consumer_dtor h w"
| "spsc_call_step NumSlots (MoveProducer this other) w = Producer_move_ctor this other w"
| "spsc_call_step NumSlots (MoveConsumer this other) w = Consumer_move_ctor this other w"
| "spsc_call_step NumSlots (AssignProducer this other) w = Producer_move_assign this other w"
| "spsc_call_step NumSlots (AssignConsumer this other) w = Consumer_move_assign this other w"
| "spsc_call_step NumSlots (CallPush h x) w = map_option snd (Producer_push NumSlots h x w)"
| "spsc_call_step NumSlots (CallPop h) w = map_option snd (Consumer_pop NumSlots h w)"
| "spsc_call_step NumSlots (CallTryPop h out) w =
     map_option (\<lambda>(ok, out', w'). w') (Consumer_try_pop NumSlots h out w)"

fun spsc_program :: "u64 \<Rightarrow> 'a spsc_call list \<Rightarrow> 'a SPSC_world \<Rightarrow> 'a SPSC_world option" where
  "spsc_program NumSlots [] w = Some w"
| "spsc_program NumSlots (c # cs) w =
     (case spsc_call_step NumSlots c w of
        None \<Rightarrow> None
      | Some w' \<Rightarrow> spsc_program NumSlots cs w')"

text \<open>The calls of the public constructor of \<^verbatim>\<open>Producer\<close>.\<close>

fun constructs_producer :: "'a spsc_call \<Rightarrow> bool" where
  "constructs_producer (ConstructProducer this qa) = True"
| "constructs_producer _ = False"

text \<open>
  The producer role of every queue is claimed exactly when a live producer handle
  points to the queue, and no two live producer handles point to the same queue.
\<close>

definition producer_exclusive :: "'a SPSC_world \<Rightarrow> bool" where
  "producer_exclusive w \<longleftrightarrow>
     (\<forall>qa. (m_producer_claimed (queues w qa) \<longleftrightarrow> (\<exists>h. producers w h = Some (Some qa))) \<and>
           (\<forall>h h'. producers w h = Some (Some qa) \<and> producers w h' = Some (Some qa) \<longrightarrow> h = h'))"

subsection \<open>Consumer handles of the broadcast queue\<close>

record Consumer_mc =
  m_queue :: "qref option"
  m_slot_idx :: nat

record 'a SPMC_world =
  queues_mc :: "qref \<Rightarrow> 'a SPMCQueue"
  consumers_mc :: "href \<rightharpoonup> Consumer_mc"

definition Consumer_mc_ctor :: "href \<Rightarrow> qref \<Rightarrow> nat \<Rightarrow> 'a SPMC_world \<Rightarrow> 'a SPMC_world option" where
  "Consumer_mc_ctor this qa slot_idx w =
     (if this \<in> dom (consumers_mc w) then None
      else Some (w\<lparr>consumers_mc :=
                     (consumers_mc w)(this \<mapsto> \<lparr>m_queue = Some qa, m_slot_idx = slot_idx\<rparr>)\<rparr>))"

definition Consumer_mc_dtor :: "href \<Rightarrow> 'a SPMC_world \<Rightarrow> 'a SPMC_world option" where
  "Consumer_mc_dtor this w =
     (case consumers_mc w this of
        None \<Rightarrow> None
      | Some c \<Rightarrow>
          (case m_queue c of
             None \<Rightarrow> Some (w\<lparr>consumers_mc := (consumers_mc w)(this := None)\<rparr>)
           | Some qa \<Rightarrow>
               (case consumer_dtor (m_slot_idx c) (queues_mc w qa) of
                  None \<Rightarrow> None
                | Some q' \<Rightarrow>
                    Some (w\<lparr>queues_mc := (queues_mc w)(qa := q'),
                            consumers_mc := (consumers_mc w)(this := None)\<rparr>))))"

definition Consumer_mc_move_ctor :: "href \<Rightarrow> href \<Rightarrow> 'a SPMC_world \<Rightarrow> 'a SPMC_world option" where
  "Consumer_mc_move_ctor this other w =
     (case consumers_mc w other of
        None \<Rightarrow> None
      | Some oc \<Rightarrow>
          if this \<in> dom (consumers_mc w) then None
          else Some (w\<lparr>consumers_mc :=
                          (consumers_mc w)
                            (this \<mapsto> \<lparr>m_queue = m_queue oc, m_slot_idx = m_slot_idx oc\<rparr>,
                             other \<mapsto> oc\<lparr>m_queue := None\<rparr>)\<rparr>))"

definition Consumer_mc_move_assign :: "href \<Rightarrow> href \<Rightarrow> 'a SPMC_world \<Rightarrow> 'a SPMC_world option" where
  "Consumer_mc_move_assign this other w =
     (case (consumers_mc w this, consumers_mc w other) of
        (Some c, Some oc) \<Rightarrow>
          if this \<noteq> other then
            (case (case m_queue c of
                     None \<Rightarrow> Some w
                   | Some qa \<Rightarrow>
                       (case consumer_overwritten (m_slot_idx c) (queues_mc w qa) of
                          None \<Rightarrow> None
                        | Some q' \<Rightarrow> Some (w\<lparr>queues_mc := (queues_mc w)(qa := q')\<rparr>))) of
               None \<Rightarrow> None
             | Some w1 \<Rightarrow>
                 Some (w1\<lparr>consumers_mc :=
                            (consumers_mc w1)
                              (this \<mapsto> \<lparr>m_queue = m_queue oc, m_slot_idx = m_slot_idx oc\<rparr>,
                               other \<mapsto> oc\<lparr>m_queue := None\<rparr>)\<rparr>))
          else Some w
      | _ \<Rightarrow> None)"

definition make_consumer_mc_at ::
    "qref \<Rightarrow> href \<Rightarrow> 'a SPMC_world \<Rightarrow> (nat option \<times> 'a SPMC_world) option" where
  "make_consumer_mc_at qa ret w =
     (case make_consumer_mc (queues_mc w qa) of
        (None, q') \<Rightarrow> Some (None, w)
      | (Some i, q') \<Rightarrow>
          (case Consumer_mc_ctor ret qa i (w\<lparr>queues_mc := (queues_mc w)(qa := q')\<rparr>) of
             None \<Rightarrow> None
           | Some w' \<Rightarrow> Some (Some i, w')))"

section \<open>Properties\<close>

lemma to_index_less:
  assumes "NumSlots \<noteq> 0"
  shows "to_index NumSlots i < unat NumSlots"
proof -
  have "i AND (NumSlots - 1) \<le> NumSlots - 1"
    by (rule word_and_le1)
  moreover have "NumSlots - 1 < NumSlots"
    using assms by (simp add: word_less_nat_alt unat_minus_one unat_gt_0)
  ultimately show ?thesis
    by (simp add: to_index_def mask_slots_def word_less_nat_alt word_le_nat_alt)
qed

subsection \<open>A capacity that passes the static assertions is a power of two\<close>

lemma pow2_nat: "n > 0 \<Longrightarrow> and n (n - 1) = (0::nat) \<Longrightarrow> \<exists>k. n = 2 ^ k"
proof (induction n rule: less_induct)
  case (less n)
  show ?case
  proof (cases "even n")
    case True
    then obtain m where m: "n = 2 * m" by (elim evenE)
    with less.prems have m0: "m > 0" by simp
    have d: "(n - 1) div 2 = m - 1" using m m0 by auto
    have "and n (n - 1) = 2 * and m (m - 1)"
      using and_nat_rec[of n "n - 1"] m d by simp
    with less.prems have "and m (m - 1) = 0" by simp
    moreover have "m < n" using m m0 by simp
    ultimately obtain k where "m = 2 ^ k" using less.IH m0 by blast
    then have "n = 2 ^ Suc k" using m by simp
    then show ?thesis by blast
  next
    case False
    then obtain m where m: "n = 2 * m + 1" by (elim oddE)
    then have "and n (n - 1) = 2 * m"
      using and_nat_rec[of n "n - 1"] by simp
    with less.prems have "m = 0" by simp
    then have "n = 2 ^ 0" using m by simp
    then show ?thesis by blast
  qed
qed

lemma pow2_word:
  fixes N :: "64 word"
  assumes "valid_NumSlots N"
  shows "\<exists>k<64. N = 2 ^ k"
proof -
  from assms have N0: "N \<noteq> 0" and A: "N AND (N - 1) = 0"
    by (auto simp: valid_NumSlots_def)
  have "unat (N AND (N - 1)) = and (unat N) (unat N - 1)"
    using N0 by (simp add: unsigned_and_eq unat_minus_one)
  with A have "and (unat N) (unat N - 1) = 0" by simp
  moreover have "unat N > 0" using N0 by (simp add: unat_gt_0)
  ultimately obtain k where k: "unat N = 2 ^ k" using pow2_nat by blast
  have "unat N < 2 ^ LENGTH(64)" by (rule unsigned_less)
  with k have "(2::nat) ^ k < 2 ^ LENGTH(64)" by (simp only:)
  then have "k < LENGTH(64)" by (simp only: power_strict_increasing_iff one_less_numeral_iff semiring_norm)
  then have "k < 64" by simp
  moreover have "N = 2 ^ k"
  proof -
    have "N = of_nat (unat N)" by simp
    also have "\<dots> = of_nat (2 ^ k)" by (simp only: k)
    also have "\<dots> = 2 ^ k" by simp
    finally show ?thesis .
  qed
  ultimately show ?thesis using \<open>k < 64\<close> by blast
qed

subsection \<open>Masking is reduction modulo the capacity\<close>

lemma unat_pow2_64:
  assumes "k < 64"
  shows "unat ((2::64 word) ^ k) = 2 ^ k"
proof -
  have "(2::nat) ^ k < 2 ^ LENGTH(64)"
    using assms by (simp only: power_strict_increasing_iff one_less_numeral_iff semiring_norm) simp
  moreover have "(2::64 word) ^ k = of_nat (2 ^ k)" by simp
  ultimately show ?thesis by (simp only: unat_of_nat mod_less)
qed

lemma to_index_mod:
  assumes "valid_NumSlots N"
  shows "to_index N i = unat i mod unat N"
proof -
  from pow2_word[OF assms] obtain k where k: "k < 64" "N = 2 ^ k" by blast
  have "N - 1 = mask k" by (simp add: k mask_eq_exp_minus_1)
  then have "i AND (N - 1) = take_bit k i" by (simp add: take_bit_eq_mask)
  moreover have "unat (take_bit k i) = take_bit k (unat i)" by (rule unsigned_take_bit_eq)
  moreover have "take_bit k (unat i) = unat i mod 2 ^ k" by (rule take_bit_eq_mod)
  ultimately have "unat (i AND (N - 1)) = unat i mod 2 ^ k" by (simp only:)
  moreover have "unat N = 2 ^ k" using k unat_pow2_64 by simp
  ultimately show ?thesis by (simp add: to_index_def mask_slots_def)
qed

lemma unat_N_dvd:
  assumes "valid_NumSlots N"
  shows "unat N dvd 2 ^ 64"
proof -
  from pow2_word[OF assms] obtain k where k: "k < 64" "N = 2 ^ k" by blast
  have "unat N = 2 ^ k" using k unat_pow2_64 by simp
  moreover have "(2::nat) ^ k dvd 2 ^ 64" using k by (intro le_imp_power_dvd) simp
  ultimately show ?thesis by simp
qed

lemma to_index_offset:
  assumes "valid_NumSlots N"
  shows "to_index N (t + of_nat k) = (unat t + k) mod unat N"
proof -
  have "unat (t + of_nat k) = (unat t + k) mod 2 ^ 64"
    by (simp add: unat_word_ariths unat_of_nat mod_add_right_eq)
  then show ?thesis
    using unat_N_dvd[OF assms] by (simp only: to_index_mod[OF assms] mod_mod_cancel)
qed

lemma mod_offset_inj:
  fixes a n :: nat
  assumes "(a + j) mod n = (a + k) mod n" "j < n" "k < n"
  shows "j = k"
proof -
  have *: "j' = k'" if "(a + j') mod n = (a + k') mod n" "j' \<le> k'" "k' < n" for j' k'
  proof -
    have "a + j' \<le> a + k'" using that by simp
    then have "n dvd (a + k') - (a + j')"
      using that(1) mod_eq_dvd_iff_nat[of "a + j'" "a + k'" n] by metis
    then have "n dvd k' - j'" by simp
    moreover have "k' - j' < n" using that by simp
    ultimately have "k' - j' = 0" by (meson dvd_imp_le not_less zero_less_iff_neq_zero)
    with that show ?thesis by simp
  qed
  show ?thesis
  proof (cases "j \<le> k")
    case True
    with assms * show ?thesis by blast
  next
    case False
    then have "k \<le> j" by simp
    with assms *[of k j] show ?thesis by simp
  qed
qed

subsection \<open>Contents of the ring under push and pop\<close>

lemma holds_empty: "length buf = unat N \<Longrightarrow> holds N buf t t []"
  by (simp add: holds_def)

lemma holds_push:
  assumes v: "valid_NumSlots N" and h: "holds N buf t h ps" and room: "\<not> N \<le> h - t"
  shows "holds N (buf[to_index N h := x]) t (h + 1) (ps @ [x])"
proof -
  let ?n = "length ps"
  from h have len: "length buf = unat N" and d: "unat (h - t) = ?n"
    and items: "\<forall>k < ?n. buf ! to_index N (t + of_nat k) = ps ! k"
    by (auto simp: holds_def)
  from v have N0: "N \<noteq> 0" by (auto simp: valid_NumSlots_def)
  from room d have lt: "?n < unat N" by (simp add: word_le_nat_alt)
  have hd_eq: "h = t + of_nat ?n"
  proof -
    have "of_nat ?n = h - t" using d by (metis of_nat_unat ucast_id)
    then show ?thesis by simp
  qed
  have "h - t \<noteq> - 1"
  proof
    assume "h - t = - 1"
    then have "N \<le> h - t" by simp
    with room show False by simp
  qed
  then have "h - t + 1 \<noteq> 0" by (metis add.commute add_eq_0_iff)
  then have "unat (h - t + 1) = Suc (unat (h - t))"
    by (metis add.commute unatSuc)
  moreover have "h + 1 - t = h - t + 1" by simp
  ultimately have "unat (h + 1 - t) = Suc ?n" by (simp only: d)
  then have d': "unat (h + 1 - t) = length (ps @ [x])" by simp
  have idx: "to_index N h < length buf" using to_index_less[OF N0] len by simp
  have "(buf[to_index N h := x]) ! to_index N (t + of_nat k) = (ps @ [x]) ! k"
    if "k < length (ps @ [x])" for k
  proof (cases "k = ?n")
    case True
    then show ?thesis using hd_eq idx by simp
  next
    case False
    with that have kl: "k < ?n" by simp
    have "to_index N (t + of_nat k) \<noteq> to_index N h"
    proof
      assume "to_index N (t + of_nat k) = to_index N h"
      moreover have "to_index N (t + of_nat k) = (unat t + k) mod unat N"
        by (rule to_index_offset[OF v])
      moreover have "to_index N h = (unat t + ?n) mod unat N"
        using to_index_offset[OF v, of t ?n] hd_eq by simp
      ultimately have "(unat t + k) mod unat N = (unat t + ?n) mod unat N"
        by (simp only:)
      moreover have "k < unat N" using kl lt by simp
      ultimately have "k = ?n" using lt by (rule mod_offset_inj)
      with False show False by simp
    qed
    then show ?thesis using items kl by (simp add: nth_append)
  qed
  then show ?thesis using len lt d' unfolding holds_def by simp
qed

lemma holds_pop:
  assumes h: "holds N buf t h ps" and ne: "t \<noteq> h"
  shows "ps \<noteq> [] \<and> buf ! to_index N t = hd ps \<and> holds N buf (t + 1) h (tl ps)"
proof -
  let ?n = "length ps"
  from h have len: "length buf = unat N" and d: "unat (h - t) = ?n" and le: "?n \<le> unat N"
    and items: "\<forall>k < ?n. buf ! to_index N (t + of_nat k) = ps ! k"
    by (auto simp: holds_def)
  from ne have "h - t \<noteq> 0" by simp
  then have pos: "0 < ?n" using d by (metis unat_gt_0)
  then have ne': "ps \<noteq> []" by auto
  have "buf ! to_index N (t + of_nat 0) = ps ! 0" using items pos by blast
  then have first: "buf ! to_index N t = hd ps" using ne' by (simp add: hd_conv_nth)
  have "unat (h - t - 1) = unat (h - t) - 1"
    using \<open>h - t \<noteq> 0\<close> by (simp add: unat_minus_one)
  moreover have "h - (t + 1) = h - t - 1" by simp
  ultimately have "unat (h - (t + 1)) = ?n - 1" by (simp only: d)
  then have d': "unat (h - (t + 1)) = length (tl ps)" by simp
  have "buf ! to_index N (t + 1 + of_nat k) = tl ps ! k" if "k < length (tl ps)" for k
  proof -
    from that have "Suc k < ?n" by simp
    then have "buf ! to_index N (t + of_nat (Suc k)) = ps ! Suc k" using items by blast
    moreover have "t + of_nat (Suc k) = t + 1 + of_nat k" by simp
    ultimately have "buf ! to_index N (t + 1 + of_nat k) = ps ! Suc k" by (simp only:)
    then show ?thesis using that by (simp add: nth_tl)
  qed
  then show ?thesis using ne' first len le d' unfolding holds_def by simp
qed

section \<open>FIFO order of the single-consumer queue\<close>

lemma popped_Cons: "popped (e # es) = popped [e] @ popped es"
  by (cases e) simp_all

lemma pushed_Cons: "pushed (e # es) = pushed [e] @ pushed es"
  by (cases e) simp_all

lemma spsc_step_holds:
  assumes v: "valid_NumSlots N"
    and h: "holds N (m_buffer q) (m_tail q) (m_head q) ps"
    and s: "spsc_step N c q = (e, q')"
  shows "\<exists>ps'. holds N (m_buffer q') (m_tail q') (m_head q') ps' \<and>
               popped [e] @ ps' = ps @ pushed [e]"
proof (cases c)
  case (Push x)
  show ?thesis
  proof (cases "N \<le> m_head q - m_tail q")
    case True
    with s Push h show ?thesis by (auto simp: push_impl_def Let_def)
  next
    case False
    from holds_push[OF v h False, of x] s Push False show ?thesis
      by (auto simp: push_impl_def Let_def)
  qed
next
  case Pop
  show ?thesis
  proof (cases "m_head q \<le> m_tail q")
    case True
    with s Pop h show ?thesis by (auto simp: pop_impl_def Let_def)
  next
    case False
    then have "m_tail q \<noteq> m_head q" by auto
    from holds_pop[OF h this] s Pop False show ?thesis
      by (auto simp: pop_impl_def Let_def)
  qed
next
  case (TryPop out)
  show ?thesis
  proof (cases "m_head q \<le> m_tail q")
    case True
    with s TryPop h show ?thesis by (auto simp: try_pop_impl_def Let_def)
  next
    case False
    then have "m_tail q \<noteq> m_head q" by auto
    from holds_pop[OF h this] s TryPop False show ?thesis
      by (auto simp: try_pop_impl_def Let_def)
  qed
next
  case MakeProducer
  with s h show ?thesis by (auto simp: make_producer_def split: if_splits)
next
  case MakeConsumer
  with s h show ?thesis by (auto simp: make_consumer_def split: if_splits)
next
  case DropProducer
  with s h show ?thesis by (auto simp: release_producer_def)
next
  case DropConsumer
  with s h show ?thesis by (auto simp: release_consumer_def)
qed

lemma spsc_run_holds:
  assumes v: "valid_NumSlots N"
  shows "holds N (m_buffer q) (m_tail q) (m_head q) ps \<Longrightarrow> spsc_run N cs q = (es, q') \<Longrightarrow>
         \<exists>ps'. holds N (m_buffer q') (m_tail q') (m_head q') ps' \<and> popped es @ ps' = ps @ pushed es"
proof (induction cs arbitrary: q ps es)
  case Nil
  then show ?case by auto
next
  case (Cons c cs)
  obtain e q1 where st: "spsc_step N c q = (e, q1)" by (cases "spsc_step N c q")
  obtain es1 where r: "spsc_run N cs q1 = (es1, q')" and es: "es = e # es1"
    using Cons.prems(2) st by (auto split: prod.splits)
  from spsc_step_holds[OF v Cons.prems(1) st] obtain ps1
    where h1: "holds N (m_buffer q1) (m_tail q1) (m_head q1) ps1"
      and e1: "popped [e] @ ps1 = ps @ pushed [e]" by blast
  from Cons.IH[OF h1 r] obtain ps' where h': "holds N (m_buffer q') (m_tail q') (m_head q') ps'"
      and e2: "popped es1 @ ps' = ps1 @ pushed es1" by blast
  have "popped es @ ps' = popped [e] @ (popped es1 @ ps')"
    unfolding es by (subst popped_Cons) simp
  also have "\<dots> = (popped [e] @ ps1) @ pushed es1" using e2 by simp
  also have "\<dots> = ps @ pushed [e] @ pushed es1" using e1 by simp
  also have "\<dots> = ps @ pushed es" unfolding es by (subst (2) pushed_Cons) simp
  finally show ?case using h' by blast
qed

lemma spsc_run_no_failure:
  "spsc_run N cs q = (es, q') \<Longrightarrow> \<forall>e \<in> set es. \<not> failed e \<Longrightarrow>
     pushed es = pushes_of cs \<and> length (popped es) = pops_of cs"
proof (induction cs arbitrary: q es)
  case Nil
  then show ?case by auto
next
  case (Cons c cs)
  obtain e q1 where st: "spsc_step N c q = (e, q1)" by (cases "spsc_step N c q")
  obtain es1 where r: "spsc_run N cs q1 = (es1, q')" and es: "es = e # es1"
    using Cons.prems(1) st by (auto split: prod.splits)
  from Cons.prems(2) es have nf: "\<not> failed e" "\<forall>e \<in> set es1. \<not> failed e" by auto
  from Cons.IH[OF r nf(2)] have IH: "pushed es1 = pushes_of cs" "length (popped es1) = pops_of cs"
    by auto
  show ?case
  proof (cases c)
    case (Push x)
    with st nf(1) have "e = PushOk x" by (auto split: prod.splits if_splits)
    with IH es Push show ?thesis by simp
  next
    case Pop
    with st nf(1) obtain v where "e = PopOk v" by (auto split: prod.splits option.splits)
    with IH es Pop show ?thesis by simp
  next
    case (TryPop out)
    with st nf(1) obtain v where "e = PopOk v" by (auto split: prod.splits if_splits)
    with IH es TryPop show ?thesis by simp
  next
    case MakeProducer
    with st obtain b where "e = Claim b" by (auto split: prod.splits)
    with IH es MakeProducer show ?thesis by simp
  next
    case MakeConsumer
    with st obtain b where "e = Claim b" by (auto split: prod.splits)
    with IH es MakeConsumer show ?thesis by simp
  next
    case DropProducer
    with st have "e = Release" by auto
    with IH es DropProducer show ?thesis by simp
  next
    case DropConsumer
    with st have "e = Release" by auto
    with IH es DropConsumer show ?thesis by simp
  qed
qed

text \<open>
  Claim C1. Take a queue whose cursors are equal (nothing is queued) and run any
  sequence of calls on it. The values that the pops return, in the order they return
  them, are the first of the values that the pushes accepted, in the order they were
  accepted. If moreover no call of the run fails and it pops as often as it pushes, the
  values received are exactly the values handed to push, in the order they were pushed.
\<close>

theorem spsc_fifo_order:
  assumes "valid_NumSlots NumSlots"
    and "length (m_buffer q) = unat NumSlots"
    and "m_head q = m_tail q"
    and "spsc_run NumSlots cs q = (es, q')"
  shows "popped es = take (length (popped es)) (pushed es) \<and>
         ((\<forall>e \<in> set es. \<not> failed e) \<and> pops_of cs = length (pushes_of cs)
            \<longrightarrow> popped es = pushes_of cs)"
proof -
  have "holds NumSlots (m_buffer q) (m_tail q) (m_head q) []"
    using assms(2,3) holds_empty[of "m_buffer q" NumSlots "m_tail q"] by simp
  from spsc_run_holds[OF assms(1) this assms(4)] obtain ps'
    where eq: "popped es @ ps' = pushed es" by auto
  then have pre: "popped es = take (length (popped es)) (pushed es)"
    by (metis append_eq_conv_conj)
  have "popped es = pushes_of cs"
    if "\<forall>e \<in> set es. \<not> failed e" "pops_of cs = length (pushes_of cs)"
  proof -
    from spsc_run_no_failure[OF assms(4) that(1)] that(2)
    have "pushed es = pushes_of cs" "length (popped es) = length (pushed es)" by auto
    with pre show ?thesis by simp
  qed
  with pre show ?thesis by blast
qed

theorem spsc_fifo_order_witness:
  "valid_NumSlots 4 \<and>
   spsc_run 4 [Push 10, Push 20, Pop, Push 30, Pop, Pop] (SPSCQueue_init 4 (0::nat))
     = ([PushOk 10, PushOk 20, PopOk 10, PushOk 30, PopOk 20, PopOk 30],
        \<lparr>m_buffer = [10, 20, 30, 0], m_head = 3, m_tail = 3,
         m_producer_claimed = False, m_consumer_claimed = False\<rparr>) \<and>
   popped [PushOk 10, PushOk 20, PopOk 10, PushOk 30, PopOk 20, PopOk (30::nat)] = [10, 20, 30]"
proof -
  have v: "valid_NumSlots 4" by code_simp
  have r: "spsc_run 4 [Push 10, Push 20, Pop, Push 30, Pop, Pop] (SPSCQueue_init 4 (0::nat))
     = ([PushOk 10, PushOk 20, PopOk 10, PushOk 30, PopOk 20, PopOk 30],
        \<lparr>m_buffer = [10, 20, 30, 0], m_head = 3, m_tail = 3,
         m_producer_claimed = False, m_consumer_claimed = False\<rparr>)"
    by code_simp
  have l: "length (m_buffer (SPSCQueue_init 4 (0::nat))) = unat (4::64 word)"
    by (simp add: SPSCQueue_init_def)
  have e: "m_head (SPSCQueue_init 4 (0::nat)) = m_tail (SPSCQueue_init 4 (0::nat))"
    by (simp add: SPSCQueue_init_def)
  from spsc_fifo_order[OF v l e r] v r show ?thesis by simp
qed

section \<open>The broadcast queue\<close>

subsection \<open>The slowest active cursor\<close>

lemma min_tail_loop_fst_le: "fst (min_tail_loop slots (m, a)) \<le> m"
proof (induction slots arbitrary: m a)
  case Nil
  then show ?case by simp
next
  case (Cons s slots)
  show ?case
  proof (cases "state s = Active")
    case True
    have "fst (min_tail_loop slots (if tail s < m then tail s else m, True))
            \<le> (if tail s < m then tail s else m)" by (rule Cons.IH)
    also have "\<dots> \<le> m" by (auto simp: less_imp_le)
    finally show ?thesis using True by (simp add: Let_def)
  next
    case False
    then show ?thesis using Cons.IH[of m a] by simp
  qed
qed

lemma min_tail_loop_le_active:
  "s \<in> set slots \<Longrightarrow> state s = Active \<Longrightarrow> fst (min_tail_loop slots (m, a)) \<le> tail s"
proof (induction slots arbitrary: m a)
  case Nil
  then show ?case by simp
next
  case (Cons s' slots)
  show ?case
  proof (cases "s = s'")
    case True
    have "fst (min_tail_loop slots (if tail s' < m then tail s' else m, True))
            \<le> (if tail s' < m then tail s' else m)" by (rule min_tail_loop_fst_le)
    also have "\<dots> \<le> tail s'" by (auto simp: not_less)
    finally have "fst (min_tail_loop (s' # slots) (m, a)) \<le> tail s'"
      using True Cons.prems(2) by (simp add: Let_def)
    then show ?thesis using True by simp
  next
    case False
    with Cons.prems have "s \<in> set slots" by simp
    from Cons.IH[OF this Cons.prems(2)] show ?thesis by (simp add: Let_def)
  qed
qed

lemma min_tail_loop_snd_False:
  "snd (min_tail_loop slots (m, False)) = False \<Longrightarrow> fst (min_tail_loop slots (m, False)) = m"
proof (induction slots arbitrary: m)
  case Nil
  then show ?case by simp
next
  case (Cons s slots)
  have *: "snd (min_tail_loop xs (m', True)) = True" for xs m'
    by (induction xs arbitrary: m') (simp_all add: Let_def)
  show ?case
  proof (cases "state s = Active")
    case True
    with Cons.prems * show ?thesis by (simp add: Let_def)
  next
    case False
    with Cons show ?thesis by simp
  qed
qed

lemma min_tail_snapshot_fst:
  "min_tail_snapshot head q = fst (min_tail_loop (m_slots q) (head, False))"
  using min_tail_loop_snd_False[of "m_slots q" head]
  by (cases "min_tail_loop (m_slots q) (head, False)") (auto simp: min_tail_snapshot_def)

lemma min_tail_snapshot_le_head: "min_tail_snapshot head q \<le> head"
  by (simp add: min_tail_snapshot_fst min_tail_loop_fst_le)

lemma min_tail_snapshot_le_active:
  "active i q \<Longrightarrow> min_tail_snapshot head q \<le> tail_of i q"
  unfolding min_tail_snapshot_fst active_def tail_of_def
  by (rule min_tail_loop_le_active) auto

text \<open>The snapshot is one of the cursors it looked at.\<close>

lemma min_tail_loop_mem:
  "fst (min_tail_loop slots (m, a)) = m \<or>
   (\<exists>s \<in> set slots. state s = Active \<and> fst (min_tail_loop slots (m, a)) = tail s)"
proof (induction slots arbitrary: m a)
  case Nil
  then show ?case by simp
next
  case (Cons s slots)
  show ?case
  proof (cases "state s = Active")
    case True
    from Cons.IH[of "if tail s < m then tail s else m" True] True show ?thesis
      by (auto simp: Let_def split: if_splits)
  next
    case False
    from Cons.IH[of m a] False show ?thesis by auto
  qed
qed

subsection \<open>Attaching a consumer\<close>

lemma store_tail_simps [simp]:
  "m_buffer_mc (store_tail i v q) = m_buffer_mc q"
  "m_head_mc (store_tail i v q) = m_head_mc q"
  "m_producer_claimed_mc (store_tail i v q) = m_producer_claimed_mc q"
  "length (m_slots (store_tail i v q)) = length (m_slots q)"
  "k \<noteq> i \<Longrightarrow> m_slots (store_tail i v q) ! k = m_slots q ! k"
  "i < length (m_slots q) \<Longrightarrow> m_slots (store_tail i v q) ! i = (m_slots q ! i)\<lparr>tail := v\<rparr>"
  by (simp_all add: store_tail_def)

lemma store_state_simps [simp]:
  "m_buffer_mc (store_state i v q) = m_buffer_mc q"
  "m_head_mc (store_state i v q) = m_head_mc q"
  "m_producer_claimed_mc (store_state i v q) = m_producer_claimed_mc q"
  "length (m_slots (store_state i v q)) = length (m_slots q)"
  "k \<noteq> i \<Longrightarrow> m_slots (store_state i v q) ! k = m_slots q ! k"
  "i < length (m_slots q) \<Longrightarrow> m_slots (store_state i v q) ! i = (m_slots q ! i)\<lparr>state := v\<rparr>"
  by (simp_all add: store_state_def)

lemma attach_stores:
  "i < length (m_slots q) \<Longrightarrow>
   store_state i Active (store_tail i h (store_state i Initializing q))
     = q\<lparr>m_slots := (m_slots q)[i := \<lparr>state = Active, tail = h\<rparr>]\<rparr>"
  by (cases "m_slots q ! i") (simp add: store_state_def store_tail_def)

lemma make_consumer_scan_Some:
  "make_consumer_scan h [a ..< n] q = (Some j, q') \<Longrightarrow> n \<le> length (m_slots q) \<Longrightarrow>
     a \<le> j \<and> j < n \<and> state (m_slots q ! j) = Free \<and>
     (\<forall>k. a \<le> k \<and> k < j \<longrightarrow> state (m_slots q ! k) \<noteq> Free) \<and>
     q' = q\<lparr>m_slots := (m_slots q)[j := \<lparr>state = Active, tail = h\<rparr>]\<rparr>"
proof (induction "n - a" arbitrary: a)
  case 0
  then show ?case by simp
next
  case (Suc d)
  then have an: "a < n" by simp
  then have u: "[a ..< n] = a # [Suc a ..< n]" by (rule upt_conv_Cons)
  show ?case
  proof (cases "state (m_slots q ! a) = Free")
    case True
    from Suc.prems(1) True have "j = a" by (simp add: u make_consumer_cas_def)
    moreover from Suc.prems(1) True an Suc.prems(2)
    have "q' = q\<lparr>m_slots := (m_slots q)[a := \<lparr>state = Active, tail = h\<rparr>]\<rparr>"
      by (auto simp: u attach_stores make_consumer_cas_def)
    ultimately show ?thesis using True an by auto
  next
    case False
    with Suc.prems(1) have s: "make_consumer_scan h [Suc a ..< n] q = (Some j, q')"
      by (simp add: u make_consumer_cas_def)
    have "d = n - Suc a" using Suc.hyps(2) by simp
    from Suc.hyps(1)[OF this s Suc.prems(2)]
    have IH: "Suc a \<le> j" "j < n" "state (m_slots q ! j) = Free"
      "\<forall>k. Suc a \<le> k \<and> k < j \<longrightarrow> state (m_slots q ! k) \<noteq> Free"
      "q' = q\<lparr>m_slots := (m_slots q)[j := \<lparr>state = Active, tail = h\<rparr>]\<rparr>"
      by simp_all
    have "state (m_slots q ! k) \<noteq> Free" if "a \<le> k \<and> k < j" for k
    proof (cases "k = a")
      case True
      with False show ?thesis by simp
    next
      case False
      with that have "Suc a \<le> k \<and> k < j" by simp
      with IH(4) show ?thesis by blast
    qed
    with IH show ?thesis by simp
  qed
qed

lemma make_consumer_scan_None:
  "make_consumer_scan h js q = (None, q') \<Longrightarrow>
     q' = q \<and> (\<forall>k \<in> set js. state (m_slots q ! k) \<noteq> Free)"
  by (induction js) (auto simp: make_consumer_cas_def split: if_splits)

lemma make_consumer_mc_Some:
  assumes "make_consumer_mc q = (Some j, q')"
  shows "j < length (m_slots q) \<and> state (m_slots q ! j) = Free \<and>
         (\<forall>k < j. state (m_slots q ! k) \<noteq> Free) \<and>
         q' = q\<lparr>m_slots := (m_slots q)[j := \<lparr>state = Active, tail = m_head_mc q\<rparr>]\<rparr>"
proof -
  from assms have s: "make_consumer_scan (m_head_mc q) [0 ..< length (m_slots q)] q = (Some j, q')"
    by (simp add: make_consumer_mc_def make_consumer_load_def Let_def)
  from make_consumer_scan_Some[OF s] show ?thesis by simp
qed

lemma make_consumer_mc_None:
  assumes "make_consumer_mc q = (None, q')"
  shows "q' = q \<and> (\<forall>k < length (m_slots q). state (m_slots q ! k) \<noteq> Free)"
  using make_consumer_scan_None[of "m_head_mc q" "[0 ..< length (m_slots q)]" q q'] assms
  by (simp add: make_consumer_mc_def make_consumer_load_def Let_def)

lemma make_consumer_mc_total:
  "(\<exists>j q'. make_consumer_mc q = (Some j, q')) \<longleftrightarrow> (\<exists>k < length (m_slots q). state (m_slots q ! k) = Free)"
proof
  assume "\<exists>j q'. make_consumer_mc q = (Some j, q')"
  then show "\<exists>k < length (m_slots q). state (m_slots q ! k) = Free"
    using make_consumer_mc_Some by blast
next
  assume a: "\<exists>k < length (m_slots q). state (m_slots q ! k) = Free"
  show "\<exists>j q'. make_consumer_mc q = (Some j, q')"
  proof (cases "make_consumer_mc q")
    case (Pair r q')
    show ?thesis
    proof (cases r)
      case None
      with Pair make_consumer_mc_None a show ?thesis by blast
    next
      case (Some j)
      with Pair show ?thesis by blast
    qed
  qed
qed

text \<open>
  A call of \<^verbatim>\<open>make_consumer\<close> that no other thread interleaves with is the schedule of
  its own steps: the load, one failed compare-and-exchange for each slot before the one
  it gets, the one that succeeds, and the two stores.
\<close>

lemma attach_cas_skip:
  assumes "\<forall>k. i \<le> k \<and> k < j \<longrightarrow> state (m_slots q ! k) \<noteq> Free" and "i \<le> j" and "j < length (m_slots q)"
  shows "spmc_atoms N (replicate (j - i) AttachCas @ rest)
            (q, Some \<lparr>af_head = h, af_i = i, af_pc = Scanning\<rparr>)
         = spmc_atoms N rest (q, Some \<lparr>af_head = h, af_i = j, af_pc = Scanning\<rparr>)"
  using assms
proof (induction "j - i" arbitrary: i)
  case 0
  then show ?case by simp
next
  case (Suc n)
  then have ij: "i < j" and n: "n = j - Suc i" by simp_all
  from ij have r: "replicate (j - i) AttachCas = AttachCas # replicate (j - Suc i) AttachCas"
    by (simp add: Suc_diff_Suc replicate_Suc[symmetric] del: replicate_Suc)
  from Suc.prems(1) ij have nf: "state (m_slots q ! i) \<noteq> Free" by simp
  from ij Suc.prems(3) have il: "i < length (m_slots q)" by simp
  have st: "spmc_atom_step N AttachCas (q, Some \<lparr>af_head = h, af_i = i, af_pc = Scanning\<rparr>)
              = Some ([], q, Some \<lparr>af_head = h, af_i = Suc i, af_pc = Scanning\<rparr>)"
    using nf il by (simp add: make_consumer_cas_def)
  have ih: "spmc_atoms N (replicate (j - Suc i) AttachCas @ rest)
              (q, Some \<lparr>af_head = h, af_i = Suc i, af_pc = Scanning\<rparr>)
            = spmc_atoms N rest (q, Some \<lparr>af_head = h, af_i = j, af_pc = Scanning\<rparr>)"
    using Suc.hyps(1)[OF n] Suc.prems ij by simp
  show ?case
    by (simp only: r append_Cons spmc_atoms.simps st option.case prod.case ih append_Nil)
       (simp split: option.splits)
qed

lemma attach_uninterrupted:
  assumes "make_consumer_mc q = (Some j, q')"
  shows "spmc_atoms N (AttachLoad # replicate j AttachCas @ [AttachCas, AttachStoreTail, AttachStoreActive])
            (q, None)
         = Some ([Attached j], q', None)"
proof -
  from make_consumer_mc_Some[OF assms]
  have jl: "j < length (m_slots q)" and jf: "state (m_slots q ! j) = Free"
    and before: "\<forall>k < j. state (m_slots q ! k) \<noteq> Free"
    and q': "q' = q\<lparr>m_slots := (m_slots q)[j := \<lparr>state = Active, tail = m_head_mc q\<rparr>]\<rparr>"
    by auto
  have skip: "spmc_atoms N (replicate (j - 0) AttachCas @ [AttachCas, AttachStoreTail, AttachStoreActive])
            (q, Some \<lparr>af_head = m_head_mc q, af_i = 0, af_pc = Scanning\<rparr>)
         = spmc_atoms N [AttachCas, AttachStoreTail, AttachStoreActive]
            (q, Some \<lparr>af_head = m_head_mc q, af_i = j, af_pc = Scanning\<rparr>)"
    by (rule attach_cas_skip) (use before jl in simp_all)
  have fin: "spmc_atoms N [AttachCas, AttachStoreTail, AttachStoreActive]
            (q, Some \<lparr>af_head = m_head_mc q, af_i = j, af_pc = Scanning\<rparr>)
         = Some ([Attached j], q', None)"
    using jl jf by (cases "m_slots q ! j") (simp add: make_consumer_cas_def q' store_state_def store_tail_def)
  show ?thesis using skip fin by (simp add: make_consumer_load_def)
qed

subsection \<open>What one consumer sees\<close>

lemma word_diff_mono_left:
  fixes a b c :: "'a::len word"
  assumes "a \<le> b" "b \<le> c"
  shows "c - b \<le> c - a"
proof -
  from assms have "a \<le> c" by simp
  with assms show ?thesis
    by (simp add: word_le_nat_alt unat_sub)
qed

lemma word_le_succ:
  fixes t h :: "'a::len word"
  assumes "h + 1 \<noteq> 0" "t \<le> h"
  shows "t \<le> h + 1"
proof -
  have "unat (h + 1) = Suc (unat h)" using assms(1) by (metis add.commute unatSuc)
  with assms(2) show ?thesis by (simp add: word_le_nat_alt)
qed

lemma slot_view_cong:
  assumes "m_slots q' ! i = m_slots q ! i" "length (m_slots q') = length (m_slots q)"
    "m_buffer_mc q' = m_buffer_mc q" "m_head_mc q' = m_head_mc q"
  shows "slot_view N i q' ps = slot_view N i q ps"
  using assms by (simp add: slot_view_def active_def tail_of_def)

lemma got_Cons: "got i (e # es) = got i [e] @ got i es"
  by (cases e) simp_all

lemma accepted_Cons: "accepted (e # es) = accepted [e] @ accepted es"
  by (cases e) simp_all

lemma slot_view_push:
  assumes v: "valid_NumSlots N" and sv: "slot_view N i q ps"
    and p: "push_impl_mc N x q = (ok, q')" and nw: "ok \<longrightarrow> m_head_mc q + 1 \<noteq> 0"
  shows "slot_view N i q' (if ok then ps @ [x] else ps)"
proof -
  let ?h = "m_head_mc q" and ?m = "min_tail_snapshot (m_head_mc q) q" and ?t = "tail_of i q"
  from sv have a: "active i q" and le: "?t \<le> ?h"
    and h: "holds N (m_buffer_mc q) ?t ?h ps" by (auto simp: slot_view_def)
  show ?thesis
  proof (cases "N \<le> ?h - ?m")
    case True
    with p have "ok = False" "q' = q" by (auto simp: push_impl_mc_def Let_def)
    with sv show ?thesis by simp
  next
    case False
    with p have ok: "ok" and q': "q' = q\<lparr>m_buffer_mc := (m_buffer_mc q)[to_index N ?h := x],
                     m_head_mc := ?h + 1\<rparr>"
      by (auto simp: push_impl_mc_def Let_def)
    have "?m \<le> ?t" using a by (rule min_tail_snapshot_le_active)
    then have "?h - ?t \<le> ?h - ?m" using le by (rule word_diff_mono_left)
    with False have room: "\<not> N \<le> ?h - ?t" by simp
    from holds_push[OF v h room, of x]
    have "holds N (m_buffer_mc q') (tail_of i q') (m_head_mc q') (ps @ [x])"
      by (simp add: q' tail_of_def)
    moreover have "active i q'" using a by (simp add: q' active_def)
    moreover have "tail_of i q' \<le> m_head_mc q'"
      using word_le_succ[of ?h ?t] nw ok le by (simp add: q' tail_of_def)
    ultimately show ?thesis using ok by (simp add: slot_view_def)
  qed
qed

lemma slot_view_pop_self:
  assumes sv: "slot_view N i q ps" and p: "pop_impl_mc N i q = Some (r, q')"
  shows "slot_view N i q' (case r of None \<Rightarrow> ps | Some v \<Rightarrow> tl ps) \<and>
         (case r of None \<Rightarrow> True | Some v \<Rightarrow> ps \<noteq> [] \<and> v = hd ps)"
proof -
  let ?h = "m_head_mc q" and ?t = "tail_of i q"
  from sv have a: "active i q" and le: "?t \<le> ?h"
    and h: "holds N (m_buffer_mc q) ?t ?h ps" by (auto simp: slot_view_def)
  from a have il: "i < length (m_slots q)" by (simp add: active_def)
  show ?thesis
  proof (cases "?h \<le> ?t")
    case True
    with p il have "r = None" "q' = q" by (auto simp: pop_impl_mc_def Let_def tail_of_def)
    with sv show ?thesis by simp
  next
    case False
    with p il have r: "r = Some (m_buffer_mc q ! to_index N ?t)"
      and q': "q' = store_tail i (?t + 1) q"
      by (auto simp: pop_impl_mc_def Let_def tail_of_def)
    from False have ne: "?t \<noteq> ?h" by auto
    from holds_pop[OF h ne] have ps: "ps \<noteq> []" "m_buffer_mc q ! to_index N ?t = hd ps"
      and h': "holds N (m_buffer_mc q) (?t + 1) ?h (tl ps)" by auto
    have t': "tail_of i q' = ?t + 1" using il by (simp add: q' tail_of_def)
    have hq: "m_head_mc q' = ?h" "m_buffer_mc q' = m_buffer_mc q" by (simp_all add: q')
    have "active i q'" using a il by (simp add: q' active_def)
    moreover have "tail_of i q' \<le> m_head_mc q'"
      unfolding t' hq using False inc_le[of ?t ?h] by (simp add: not_le)
    moreover have "holds N (m_buffer_mc q') (tail_of i q') (m_head_mc q') (tl ps)"
      unfolding t' hq by (rule h')
    ultimately show ?thesis using r ps by (simp add: slot_view_def)
  qed
qed

lemma pop_impl_mc_other:
  assumes "pop_impl_mc N j q = Some (r, q')" "j \<noteq> i"
  shows "m_slots q' ! i = m_slots q ! i \<and> length (m_slots q') = length (m_slots q) \<and>
         m_buffer_mc q' = m_buffer_mc q \<and> m_head_mc q' = m_head_mc q"
  using assms by (auto simp: pop_impl_mc_def Let_def split: if_splits)

lemma try_pop_as_pop:
  "try_pop_impl_mc N out idx q = Some (ok, out', q') \<Longrightarrow>
     pop_impl_mc N idx q = Some (if ok then Some out' else None, q')"
  by (auto simp: try_pop_impl_mc_def pop_impl_mc_def Let_def split: if_splits)

lemma slot_view_step:
  assumes v: "valid_NumSlots N" and sv: "slot_view N i q ps"
    and st: "spmc_step N c q = Some (e, q')"
    and nf: "\<not> frees_slot i c"
    and nw: "accepted [e] \<noteq> [] \<longrightarrow> m_head_mc q + 1 \<noteq> 0"
  shows "\<exists>ps'. slot_view N i q' ps' \<and> got i [e] @ ps' = ps @ accepted [e]"
proof (cases c)
  case (PushMc x)
  obtain ok where p: "push_impl_mc N x q = (ok, q')" and e: "e = (if ok then Accepted x else Full x)"
    using st PushMc by (auto split: prod.splits)
  from nw e have "ok \<longrightarrow> m_head_mc q + 1 \<noteq> 0" by simp
  from slot_view_push[OF v sv p this] e show ?thesis by auto
next
  case (PopMc j)
  obtain r where p: "pop_impl_mc N j q = Some (r, q')"
    and e: "e = (case r of Some v \<Rightarrow> Got j v | None \<Rightarrow> Empty j)"
    using st PopMc by (auto split: option.splits prod.splits)
  show ?thesis
  proof (cases "j = i")
    case True
    from slot_view_pop_self[OF sv p[unfolded True]] e True show ?thesis
      by (cases r) auto
  next
    case False
    from pop_impl_mc_other[OF p False] have "slot_view N i q' ps = slot_view N i q ps"
      by (intro slot_view_cong) simp_all
    with sv e False show ?thesis by (cases r) auto
  qed
next
  case (TryPopMc out j)
  obtain ok out' where tp: "try_pop_impl_mc N out j q = Some (ok, out', q')"
    and e: "e = (if ok then Got j out' else Empty j)"
    using st TryPopMc by (auto split: option.splits prod.splits)
  from try_pop_as_pop[OF tp] have p: "pop_impl_mc N j q = Some (if ok then Some out' else None, q')" .
  show ?thesis
  proof (cases "j = i")
    case True
    from slot_view_pop_self[OF sv p[unfolded True]] e True show ?thesis
      by (cases ok) auto
  next
    case False
    from pop_impl_mc_other[OF p False] have "slot_view N i q' ps = slot_view N i q ps"
      by (intro slot_view_cong) simp_all
    with sv e False show ?thesis by (cases ok) auto
  qed
next
  case Attach
  obtain r where m: "make_consumer_mc q = (r, q')"
    and e: "e = (case r of Some idx \<Rightarrow> Attached idx | None \<Rightarrow> NoFreeSlot)"
    using st Attach by (auto split: prod.splits)
  show ?thesis
  proof (cases r)
    case None
    with m make_consumer_mc_None have "q' = q" by blast
    with sv e None show ?thesis by auto
  next
    case (Some j)
    from make_consumer_mc_Some[OF m[unfolded Some]]
    have j: "state (m_slots q ! j) = Free"
      and q': "q' = q\<lparr>m_slots := (m_slots q)[j := \<lparr>state = Active, tail = m_head_mc q\<rparr>]\<rparr>"
      by auto
    from sv j have "j \<noteq> i" by (auto simp: slot_view_def active_def)
    then have "slot_view N i q' ps = slot_view N i q ps"
      by (intro slot_view_cong) (simp_all add: q')
    with sv e Some show ?thesis by auto
  qed
next
  case (Detach j)
  with nf have ji: "j \<noteq> i" by simp
  from st Detach have q': "consumer_dtor j q = Some q'" and e: "e = Detached j"
    by (auto split: option.splits)
  from q' ji have "slot_view N i q' ps = slot_view N i q ps"
    by (intro slot_view_cong) (auto simp: consumer_dtor_def split: if_splits)
  with sv e show ?thesis by auto
next
  case (Overwrite j)
  with nf have ji: "j \<noteq> i" by simp
  from st Overwrite have q': "consumer_overwritten j q = Some q'" and e: "e = Detached j"
    by (auto split: option.splits)
  from q' ji have "slot_view N i q' ps = slot_view N i q ps"
    by (intro slot_view_cong) (auto simp: consumer_overwritten_def split: if_splits)
  with sv e show ?thesis by auto
next
  case MakeProducerMc
  with st have "slot_view N i q' ps = slot_view N i q ps"
    by (intro slot_view_cong) (auto simp: make_producer_mc_def split: if_splits)
  moreover from st MakeProducerMc have "got i [e] = []" "accepted [e] = []"
    by (auto split: prod.splits)
  ultimately show ?thesis using sv by auto
next
  case DropProducerMc
  with st have "slot_view N i q' ps = slot_view N i q ps"
    by (intro slot_view_cong) (auto simp: release_producer_mc_def)
  moreover from st DropProducerMc have "got i [e] = []" "accepted [e] = []" by auto
  ultimately show ?thesis using sv by auto
qed

lemma push_impl_mc_head:
  "push_impl_mc N x q = (ok, q') \<Longrightarrow> m_head_mc q' = (if ok then m_head_mc q + 1 else m_head_mc q)"
  by (auto simp: push_impl_mc_def Let_def split: if_splits)

lemma spmc_step_head:
  assumes "spmc_step N c q = Some (e, q')"
  shows "m_head_mc q' = (if accepted [e] \<noteq> [] then m_head_mc q + 1 else m_head_mc q)"
proof (cases c)
  case (PushMc x)
  with assms push_impl_mc_head[of N x q] show ?thesis by (auto split: prod.splits if_splits)
next
  case (PopMc j)
  with assms show ?thesis
    by (auto simp: pop_impl_mc_def Let_def split: option.splits prod.splits if_splits)
next
  case (TryPopMc out j)
  with assms show ?thesis
    by (auto simp: try_pop_impl_mc_def Let_def split: option.splits prod.splits if_splits)
next
  case Attach
  obtain r where m: "make_consumer_mc q = (r, q')"
    and e: "e = (case r of Some idx \<Rightarrow> Attached idx | None \<Rightarrow> NoFreeSlot)"
    using assms Attach by (auto split: prod.splits)
  show ?thesis
  proof (cases r)
    case None
    with m make_consumer_mc_None e show ?thesis by fastforce
  next
    case (Some j)
    from make_consumer_mc_Some[OF m[unfolded Some]] e Some show ?thesis by auto
  qed
next
  case (Detach j)
  with assms show ?thesis by (auto simp: consumer_dtor_def split: option.splits if_splits)
next
  case (Overwrite j)
  with assms show ?thesis by (auto simp: consumer_overwritten_def split: option.splits if_splits)
next
  case MakeProducerMc
  with assms show ?thesis by (auto simp: make_producer_mc_def split: prod.splits if_splits)
next
  case DropProducerMc
  with assms show ?thesis by (auto simp: release_producer_mc_def)
qed

lemma unat_succ_no_wrap:
  fixes h :: "64 word"
  assumes "unat h + 1 < 2 ^ 64"
  shows "h + 1 \<noteq> 0" "unat (h + 1) = unat h + 1"
proof -
  have "unat h + unat (1::64 word) < 2 ^ LENGTH(64)" using assms by simp
  then have "unat (h + 1) = unat h + unat (1::64 word)" by (rule unat_add_lem[THEN iffD1])
  then show u: "unat (h + 1) = unat h + 1" by simp
  then show "h + 1 \<noteq> 0" by (metis Suc_eq_plus1 nat.distinct(1) unat_0 add.commute)
qed

lemma slot_view_run:
  assumes v: "valid_NumSlots N"
  shows "slot_view N i q ps \<Longrightarrow> spmc_run N cs q = Some (es, q') \<Longrightarrow>
         \<forall>c \<in> set cs. \<not> frees_slot i c \<Longrightarrow>
         unat (m_head_mc q) + length (accepted es) < 2 ^ 64 \<Longrightarrow>
         \<exists>ps'. slot_view N i q' ps' \<and> got i es @ ps' = ps @ accepted es"
proof (induction cs arbitrary: q ps es)
  case Nil
  then show ?case by auto
next
  case (Cons c cs)
  from Cons.prems(2) obtain e q1 es1 where st: "spmc_step N c q = Some (e, q1)"
    and r: "spmc_run N cs q1 = Some (es1, q')" and es: "es = e # es1"
    by (auto split: option.splits prod.splits)
  from Cons.prems(3) have nf: "\<not> frees_slot i c" "\<forall>c \<in> set cs. \<not> frees_slot i c" by auto
  have len: "length (accepted es) = length (accepted [e]) + length (accepted es1)"
    unfolding es by (subst accepted_Cons) simp
  have nw: "accepted [e] \<noteq> [] \<longrightarrow> m_head_mc q + 1 \<noteq> 0"
  proof
    assume "accepted [e] \<noteq> []"
    then have "0 < length (accepted [e])" by simp
    with Cons.prems(4) len have "unat (m_head_mc q) + 1 < 2 ^ 64" by linarith
    then show "m_head_mc q + 1 \<noteq> 0" by (rule unat_succ_no_wrap)
  qed
  from slot_view_step[OF v Cons.prems(1) st nf(1) nw] obtain ps1
    where sv1: "slot_view N i q1 ps1" and e1: "got i [e] @ ps1 = ps @ accepted [e]" by blast
  have b1: "unat (m_head_mc q1) + length (accepted es1) < 2 ^ 64"
  proof (cases "accepted [e] = []")
    case True
    with spmc_step_head[OF st] Cons.prems(4) len show ?thesis by simp
  next
    case False
    then have l1: "length (accepted [e]) = 1" by (cases e) simp_all
    with Cons.prems(4) len have "unat (m_head_mc q) + 1 < 2 ^ 64" by linarith
    then have "unat (m_head_mc q + 1) = unat (m_head_mc q) + 1" by (rule unat_succ_no_wrap)
    with spmc_step_head[OF st] False Cons.prems(4) len l1 show ?thesis by simp
  qed
  from Cons.IH[OF sv1 r nf(2) b1] obtain ps' where sv': "slot_view N i q' ps'"
    and e2: "got i es1 @ ps' = ps1 @ accepted es1" by blast
  have "got i es @ ps' = got i [e] @ (got i es1 @ ps')"
    unfolding es by (subst got_Cons) simp
  also have "\<dots> = (got i [e] @ ps1) @ accepted es1" using e2 by simp
  also have "\<dots> = ps @ accepted [e] @ accepted es1" using e1 by simp
  also have "\<dots> = ps @ accepted es" unfolding es by (subst (2) accepted_Cons) simp
  finally show ?case using sv' by blast
qed

section \<open>Late joiners\<close>

lemma attach_slot_view:
  assumes len: "length (m_buffer_mc q) = unat N" and att: "make_consumer_mc q = (Some i, q1)"
  shows "tail_of i q1 = m_head_mc q" "active i q1" "m_head_mc q1 = m_head_mc q" "slot_view N i q1 []"
proof -
  from make_consumer_mc_Some[OF att]
  have il: "i < length (m_slots q)"
    and q1: "q1 = q\<lparr>m_slots := (m_slots q)[i := \<lparr>state = Active, tail = m_head_mc q\<rparr>]\<rparr>"
    by auto
  show t: "tail_of i q1 = m_head_mc q" using il by (simp add: q1 tail_of_def)
  show a: "active i q1" using il by (simp add: q1 active_def)
  show h: "m_head_mc q1 = m_head_mc q" by (simp add: q1)
  have "m_buffer_mc q1 = m_buffer_mc q" by (simp add: q1)
  with len have "holds N (m_buffer_mc q1) (tail_of i q1) (m_head_mc q1) []"
    unfolding t h by (simp add: holds_empty)
  with a t h show "slot_view N i q1 []" by (simp add: slot_view_def)
qed

text \<open>
  When \<^verbatim>\<open>make_consumer\<close> runs with no step of another thread in between, the slot it
  activates has the producer cursor of that moment, so a pop right after it finds
  nothing. From then on, in any run of whole calls that does not release the slot and
  in which the producer cursor stays below \<open>2 ^ 64\<close>, the values this consumer receives
  are, in order, the first of the values accepted after it attached.
\<close>

lemma late_join_uninterrupted:
  assumes v: "valid_NumSlots NumSlots"
    and len: "length (m_buffer_mc q) = unat NumSlots"
    and att: "make_consumer_mc q = (Some i, q1)"
    and run: "spmc_run NumSlots cs q1 = Some (es, q2)"
    and nf: "\<forall>c \<in> set cs. \<not> frees_slot i c"
    and nw: "unat (m_head_mc q) + length (accepted es) < 2 ^ 64"
  shows "active i q1 \<and> tail_of i q1 = m_head_mc q \<and>
         pop_impl_mc NumSlots i q1 = Some (None, q1) \<and>
         got i es = take (length (got i es)) (accepted es) \<and>
         (got i es \<noteq> [] \<longrightarrow> hd (got i es) = hd (accepted es))"
proof -
  note a = attach_slot_view[OF len att]
  from a(2) have il: "i < length (m_slots q1)" by (simp add: active_def)
  have p: "pop_impl_mc NumSlots i q1 = Some (None, q1)"
    using il a(1) a(3) by (simp add: pop_impl_mc_def Let_def tail_of_def)
  from nw a(3) have nw1: "unat (m_head_mc q1) + length (accepted es) < 2 ^ 64" by simp
  from slot_view_run[OF v a(4) run nf nw1] obtain ps'
    where eq: "got i es @ ps' = accepted es" by auto
  have "take (length (got i es)) (got i es @ ps') = got i es" by simp
  then have pre: "got i es = take (length (got i es)) (accepted es)"
    by (simp only: eq)
  have "hd (got i es) = hd (accepted es)" if "got i es \<noteq> []"
  proof -
    from that have "hd (got i es @ ps') = hd (got i es)" by (rule hd_append2)
    then show ?thesis by (simp only: eq)
  qed
  with a(1,2) p pre show ?thesis by simp
qed

text \<open>
  Claim C3. A consumer attached by \<^verbatim>\<open>make_consumer\<close> has its slot cursor set to the
  producer cursor current at attach time, so it receives none of the earlier items and
  its first successful pop returns the first item pushed after its attach point. The
  code loads the producer cursor before it claims a slot and stores that value when it
  activates the slot, without reading the cursor again. On a queue of two slots with
  one consumer slot, when the producer pushes 1, 2 and 3 between the load and the
  compare-and-exchange, all three are accepted (no slot is active yet), the slot becomes
  active with cursor 0 while the producer cursor is 3, and the first pop of the new
  consumer returns 3, not 1.
\<close>

theorem late_join_interleaved:
  "spmc_atoms 2
     [AttachLoad, Whole (PushMc 1), Whole (PushMc 2), Whole (PushMc 3),
      AttachCas, AttachStoreTail, AttachStoreActive]
     (SPMCQueue_init 2 1 (0::nat), None)
     = Some ([Accepted 1, Accepted 2, Accepted 3, Attached 0],
             \<lparr>m_buffer_mc = [3, 2], m_head_mc = 3,
              m_slots = [\<lparr>state = Active, tail = 0\<rparr>], m_producer_claimed_mc = False\<rparr>,
             None) \<and>
   spmc_atoms 2
     [AttachLoad, Whole (PushMc 1), Whole (PushMc 2), Whole (PushMc 3),
      AttachCas, AttachStoreTail, AttachStoreActive, Whole (PopMc 0)]
     (SPMCQueue_init 2 1 (0::nat), None)
     = Some ([Accepted 1, Accepted 2, Accepted 3, Attached 0, Got 0 3],
             \<lparr>m_buffer_mc = [3, 2], m_head_mc = 3,
              m_slots = [\<lparr>state = Active, tail = 1\<rparr>], m_producer_claimed_mc = False\<rparr>,
             None)"
  by code_simp

section \<open>Filling and draining a queue of four slots\<close>

text \<open>
  Claim C4. On a fresh single-consumer queue of capacity 4, pushing 1, 2, 3 and 4
  succeeds; the cursors are then 4 apart, a fifth push fails and leaves the queue as it
  is; the next pop returns 1; after it the push of 5 succeeds.
\<close>

theorem spsc_fill_drain_scenario:
  "(let q0 = SPSCQueue_init 4 (0::int);
        (r1, q1) = push_impl 4 1 q0;
        (r2, q2) = push_impl 4 2 q1;
        (r3, q3) = push_impl 4 3 q2;
        (r4, q4) = push_impl 4 4 q3;
        (r5, q5) = push_impl 4 5 q4;
        (r6, q6) = pop_impl 4 q5;
        (r7, q7) = push_impl 4 5 q6
    in r1 \<and> r2 \<and> r3 \<and> r4 \<and>
       \<not> r5 \<and> m_head q4 - m_tail q4 \<ge> 4 \<and> q5 = q4 \<and>
       r6 = Some 1 \<and>
       r7 \<and> peek 4 q7 = Some 2 \<and> count_snapshot_impl 4 q7 = 4)"
  by code_simp

section \<open>The snapshot of the count\<close>

text \<open>
  Claim C6. In every state of either queue, \<^verbatim>\<open>count_snapshot\<close> of the
  single-consumer queue, of the producer of the broadcast queue and of a consumer of the
  broadcast queue returns at most \<^verbatim>\<open>NumSlots\<close>, also when the unsigned subtraction of
  the cursors wraps around.
\<close>

theorem count_snapshot_range:
  "count_snapshot_impl NumSlots q \<le> NumSlots \<and>
   count_snapshot_impl_mc NumSlots q' \<le> NumSlots \<and>
   (idx < length (m_slots q') \<longrightarrow>
      (\<exists>c. count_snapshot_impl_idx NumSlots idx q' = Some c \<and> c \<le> NumSlots))"
  by (simp add: count_snapshot_impl_def count_snapshot_impl_mc_def count_snapshot_impl_idx_def
        Let_def not_less)

theorem count_snapshot_range_witness:
  "(0::nat) < length (m_slots \<lparr>m_buffer_mc = [7, 8::nat], m_head_mc = 2,
         m_slots = [\<lparr>state = Free, tail = 5\<rparr>], m_producer_claimed_mc = False\<rparr>) \<and>
   count_snapshot_impl_idx 2 0 \<lparr>m_buffer_mc = [7, 8::nat], m_head_mc = 2,
         m_slots = [\<lparr>state = Free, tail = 5\<rparr>], m_producer_claimed_mc = False\<rparr> = Some 2 \<and>
   (\<exists>c. count_snapshot_impl_idx 2 0 \<lparr>m_buffer_mc = [7, 8::nat], m_head_mc = 2,
         m_slots = [\<lparr>state = Free, tail = 5\<rparr>], m_producer_claimed_mc = False\<rparr> = Some c \<and> c \<le> 2)"
proof -
  let ?q = "\<lparr>m_buffer_mc = [7, 8::nat], m_head_mc = 2,
         m_slots = [\<lparr>state = Free, tail = 5\<rparr>], m_producer_claimed_mc = False\<rparr>"
  have l: "(0::nat) < length (m_slots ?q)" by simp
  have c: "count_snapshot_impl_idx 2 0 ?q = Some 2" by code_simp
  from count_snapshot_range[where q' = ?q and idx = 0 and NumSlots = 2] l
  have "\<exists>c. count_snapshot_impl_idx 2 0 ?q = Some c \<and> c \<le> 2" by blast
  with l c show ?thesis by (intro conjI)
qed

section \<open>The two ways to pop\<close>

text \<open>
  Claim C9. From the same state, \<^verbatim>\<open>try_pop\<close> returns true and stores \<open>v\<close> exactly
  when \<^verbatim>\<open>pop\<close> returns \<open>v\<close>, returns false and leaves the caller's storage alone
  exactly when \<^verbatim>\<open>pop\<close> returns nothing, and both leave the same queue behind. This
  holds for the single-consumer queue and for every slot of the broadcast queue.
\<close>

theorem try_pop_same_as_pop:
  "try_pop_impl NumSlots out q =
     (case pop_impl NumSlots q of
        (Some v, q1) \<Rightarrow> (True, v, q1)
      | (None, q1) \<Rightarrow> (False, out, q1)) \<and>
   try_pop_impl_mc NumSlots out idx q' =
     (case pop_impl_mc NumSlots idx q' of
        None \<Rightarrow> None
      | Some (Some v, q1) \<Rightarrow> Some (True, v, q1)
      | Some (None, q1) \<Rightarrow> Some (False, out, q1))"
  by (simp add: try_pop_impl_def pop_impl_def try_pop_impl_mc_def pop_impl_mc_def Let_def)

section \<open>The capacity invariant\<close>

lemma word_pred_le:
  fixes x :: "'a::len word"
  assumes "x \<noteq> 0"
  shows "x - 1 \<le> x"
  using assms by (simp add: word_le_nat_alt unat_minus_one)

lemma spsc_step_capacity:
  assumes "m_head q - m_tail q \<le> N" and "spsc_step N c q = (e, q')"
  shows "m_head q' - m_tail q' \<le> N"
proof (cases c)
  case (Push x)
  show ?thesis
  proof (cases "N \<le> m_head q - m_tail q")
    case True
    with assms Push show ?thesis by (auto simp: push_impl_def Let_def)
  next
    case False
    then have "m_head q - m_tail q + 1 \<le> N" by (simp add: inc_le not_le)
    moreover have "m_head q + 1 - m_tail q = m_head q - m_tail q + 1" by simp
    ultimately have "m_head q + 1 - m_tail q \<le> N" by (simp only:)
    with assms Push False show ?thesis by (auto simp: push_impl_def Let_def)
  qed
next
  case Pop
  show ?thesis
  proof (cases "m_head q \<le> m_tail q")
    case True
    with assms Pop show ?thesis by (auto simp: pop_impl_def Let_def)
  next
    case False
    then have "m_head q - m_tail q \<noteq> 0" by auto
    then have "m_head q - m_tail q - 1 \<le> m_head q - m_tail q" by (rule word_pred_le)
    then have "m_head q - m_tail q - 1 \<le> N" using assms(1) by (rule order_trans)
    moreover have "m_head q - (m_tail q + 1) = m_head q - m_tail q - 1" by simp
    ultimately have "m_head q - (m_tail q + 1) \<le> N" by (simp only:)
    with assms Pop False show ?thesis by (auto simp: pop_impl_def Let_def)
  qed
next
  case (TryPop out)
  show ?thesis
  proof (cases "m_head q \<le> m_tail q")
    case True
    with assms TryPop show ?thesis by (auto simp: try_pop_impl_def Let_def)
  next
    case False
    then have "m_head q - m_tail q \<noteq> 0" by auto
    then have "m_head q - m_tail q - 1 \<le> m_head q - m_tail q" by (rule word_pred_le)
    then have "m_head q - m_tail q - 1 \<le> N" using assms(1) by (rule order_trans)
    moreover have "m_head q - (m_tail q + 1) = m_head q - m_tail q - 1" by simp
    ultimately have "m_head q - (m_tail q + 1) \<le> N" by (simp only:)
    with assms TryPop False show ?thesis by (auto simp: try_pop_impl_def Let_def)
  qed
next
  case MakeProducer
  with assms show ?thesis by (auto simp: make_producer_def split: if_splits)
next
  case MakeConsumer
  with assms show ?thesis by (auto simp: make_consumer_def split: if_splits)
next
  case DropProducer
  with assms show ?thesis by (auto simp: release_producer_def)
next
  case DropConsumer
  with assms show ?thesis by (auto simp: release_consumer_def)
qed

lemma spsc_run_capacity:
  "m_head q - m_tail q \<le> N \<Longrightarrow> spsc_run N cs q = (es, q') \<Longrightarrow> m_head q' - m_tail q' \<le> N"
proof (induction cs arbitrary: q es)
  case Nil
  then show ?case by simp
next
  case (Cons c cs)
  obtain e q1 where st: "spsc_step N c q = (e, q1)" by (cases "spsc_step N c q")
  obtain es1 where r: "spsc_run N cs q1 = (es1, q')"
    using Cons.prems(2) st by (auto split: prod.splits)
  from spsc_step_capacity[OF Cons.prems(1) st] have "m_head q1 - m_tail q1 \<le> N" .
  from Cons.IH[OF this r] show ?case .
qed

lemma push_impl_full: "N \<le> m_head q - m_tail q \<Longrightarrow> push_impl N x q = (False, q)"
  by (simp add: push_impl_def)

lemma push_impl_mc_cases:
  assumes "push_impl_mc N x q = (ok, q')"
  shows "(\<not> ok \<and> q' = q \<and> N \<le> m_head_mc q - min_tail_snapshot (m_head_mc q) q) \<or>
         (ok \<and> q' = q\<lparr>m_buffer_mc := (m_buffer_mc q)[to_index N (m_head_mc q) := x],
                         m_head_mc := m_head_mc q + 1\<rparr> \<and>
          m_head_mc q - min_tail_snapshot (m_head_mc q) q < N)"
  using assms by (auto simp: push_impl_mc_def Let_def not_le split: if_splits)

lemma active_room:
  assumes "active i q" "tail_of i q \<le> m_head_mc q"
  shows "m_head_mc q - tail_of i q \<le> m_head_mc q - min_tail_snapshot (m_head_mc q) q"
  using min_tail_snapshot_le_active[OF assms(1)] assms(2) by (rule word_diff_mono_left)

lemma capacity_ok_push:
  assumes ok: "capacity_ok N q" and p: "push_impl_mc N x q = (b, q')"
    and nw: "b \<longrightarrow> m_head_mc q + 1 \<noteq> 0"
  shows "capacity_ok N q'"
proof -
  from push_impl_mc_cases[OF p] show ?thesis
  proof
    assume "\<not> b \<and> q' = q \<and> N \<le> m_head_mc q - min_tail_snapshot (m_head_mc q) q"
    with ok show ?thesis by simp
  next
    assume a: "b \<and> q' = q\<lparr>m_buffer_mc := (m_buffer_mc q)[to_index N (m_head_mc q) := x],
                         m_head_mc := m_head_mc q + 1\<rparr> \<and>
          m_head_mc q - min_tail_snapshot (m_head_mc q) q < N"
    then have s: "m_slots q' = m_slots q" and h: "m_head_mc q' = m_head_mc q + 1" by simp_all
    have "tail_of i q' \<le> m_head_mc q' \<and> m_head_mc q' - tail_of i q' \<le> N" if "active i q'" for i
    proof -
      from that s have ai: "active i q" by (simp add: active_def)
      with ok have le: "tail_of i q \<le> m_head_mc q" by (simp add: capacity_ok_def)
      from a have "m_head_mc q - min_tail_snapshot (m_head_mc q) q < N" by simp
      with active_room[OF ai le] have "m_head_mc q - tail_of i q < N" by (rule order_le_less_trans)
      then have "m_head_mc q - tail_of i q + 1 \<le> N" by (rule inc_le)
      moreover have "m_head_mc q + 1 - tail_of i q = m_head_mc q - tail_of i q + 1" by simp
      ultimately have "m_head_mc q + 1 - tail_of i q \<le> N" by (simp only:)
      moreover have "tail_of i q \<le> m_head_mc q + 1" using nw a le by (simp add: word_le_succ)
      moreover have "tail_of i q' = tail_of i q" using s by (simp add: tail_of_def)
      ultimately show ?thesis using h by simp
    qed
    then show ?thesis by (simp add: capacity_ok_def)
  qed
qed

lemma capacity_ok_pop:
  assumes ok: "capacity_ok N q" and p: "pop_impl_mc N j q = Some (r, q')"
  shows "capacity_ok N q'"
proof (cases "m_head_mc q \<le> tail_of j q")
  case True
  with p have "q' = q" by (auto simp: pop_impl_mc_def Let_def tail_of_def split: if_splits)
  with ok show ?thesis by simp
next
  case False
  with p have jl: "j < length (m_slots q)" and q': "q' = store_tail j (tail_of j q + 1) q"
    by (auto simp: pop_impl_mc_def Let_def tail_of_def split: if_splits)
  have "tail_of i q' \<le> m_head_mc q' \<and> m_head_mc q' - tail_of i q' \<le> N" if "active i q'" for i
  proof (cases "i = j")
    case True
    from that jl have aj: "active j q" by (simp add: q' True active_def)
    with ok have d: "m_head_mc q - tail_of j q \<le> N" by (simp add: capacity_ok_def)
    from False have lt: "tail_of j q < m_head_mc q" by (simp add: not_le)
    then have "m_head_mc q - tail_of j q \<noteq> 0" by auto
    then have "m_head_mc q - tail_of j q - 1 \<le> m_head_mc q - tail_of j q" by (rule word_pred_le)
    then have "m_head_mc q - tail_of j q - 1 \<le> N" using d by (rule order_trans)
    moreover have "m_head_mc q - (tail_of j q + 1) = m_head_mc q - tail_of j q - 1" by simp
    ultimately have "m_head_mc q - (tail_of j q + 1) \<le> N" by (simp only:)
    moreover have "tail_of j q + 1 \<le> m_head_mc q" using lt by (rule inc_le)
    moreover have "tail_of j q' = tail_of j q + 1" using jl by (simp add: q' tail_of_def)
    moreover have "m_head_mc q' = m_head_mc q" by (simp add: q')
    ultimately show ?thesis using True by simp
  next
    case False
    then have same: "m_slots q' ! i = m_slots q ! i" by (simp add: q')
    with that have "active i q" by (simp add: q' active_def)
    with ok have "tail_of i q \<le> m_head_mc q \<and> m_head_mc q - tail_of i q \<le> N"
      by (simp add: capacity_ok_def)
    with same show ?thesis by (simp add: q' tail_of_def)
  qed
  then show ?thesis by (simp add: capacity_ok_def)
qed

lemma capacity_ok_freed:
  assumes ok: "capacity_ok N q" and jl: "j < length (m_slots q)"
    and s: "length (m_slots q') = length (m_slots q)"
       "state (m_slots q' ! j) = Free" "\<forall>i. i \<noteq> j \<longrightarrow> m_slots q' ! i = m_slots q ! i"
    and h: "m_head_mc q' = m_head_mc q"
  shows "capacity_ok N q'"
proof -
  have "tail_of i q' \<le> m_head_mc q' \<and> m_head_mc q' - tail_of i q' \<le> N" if "active i q'" for i
  proof -
    from that s(2) have ne: "i \<noteq> j" by (auto simp: active_def)
    with s(3) have same: "m_slots q' ! i = m_slots q ! i" by simp
    with that s(1) have "active i q" by (simp add: active_def)
    with ok have "tail_of i q \<le> m_head_mc q \<and> m_head_mc q - tail_of i q \<le> N"
      by (simp add: capacity_ok_def)
    with same h show ?thesis by (simp add: tail_of_def)
  qed
  then show ?thesis by (simp add: capacity_ok_def)
qed

lemma capacity_ok_attach:
  assumes ok: "capacity_ok N q" and m: "make_consumer_mc q = (r, q')"
  shows "capacity_ok N q'"
proof (cases r)
  case None
  with m make_consumer_mc_None have "q' = q" by blast
  with ok show ?thesis by simp
next
  case (Some j)
  from make_consumer_mc_Some[OF m[unfolded Some]]
  have jl: "j < length (m_slots q)"
    and q': "q' = q\<lparr>m_slots := (m_slots q)[j := \<lparr>state = Active, tail = m_head_mc q\<rparr>]\<rparr>"
    by auto
  have "tail_of i q' \<le> m_head_mc q' \<and> m_head_mc q' - tail_of i q' \<le> N" if "active i q'" for i
  proof (cases "i = j")
    case True
    with jl show ?thesis by (simp add: q' tail_of_def)
  next
    case False
    then have same: "m_slots q' ! i = m_slots q ! i" by (simp add: q')
    with that have "active i q" by (simp add: q' active_def)
    with ok have "tail_of i q \<le> m_head_mc q \<and> m_head_mc q - tail_of i q \<le> N"
      by (simp add: capacity_ok_def)
    with same show ?thesis by (simp add: q' tail_of_def)
  qed
  then show ?thesis by (simp add: capacity_ok_def)
qed

lemma capacity_ok_cong:
  assumes "capacity_ok N q" "m_slots q' = m_slots q" "m_head_mc q' = m_head_mc q"
  shows "capacity_ok N q'"
  using assms by (simp add: capacity_ok_def active_def tail_of_def)

lemma capacity_ok_step:
  assumes ok: "capacity_ok N q" and st: "spmc_step N c q = Some (e, q')"
    and nw: "accepted [e] \<noteq> [] \<longrightarrow> m_head_mc q + 1 \<noteq> 0"
  shows "capacity_ok N q'"
proof (cases c)
  case (PushMc x)
  obtain b where p: "push_impl_mc N x q = (b, q')" and e: "e = (if b then Accepted x else Full x)"
    using st PushMc by (auto split: prod.splits)
  from nw e have "b \<longrightarrow> m_head_mc q + 1 \<noteq> 0" by simp
  with ok p show ?thesis by (rule capacity_ok_push)
next
  case (PopMc j)
  then obtain r where "pop_impl_mc N j q = Some (r, q')"
    using st by (auto split: option.splits prod.splits)
  with ok show ?thesis by (rule capacity_ok_pop)
next
  case (TryPopMc out j)
  then obtain b out' where "try_pop_impl_mc N out j q = Some (b, out', q')"
    using st by (auto split: option.splits prod.splits)
  from ok try_pop_as_pop[OF this] show ?thesis by (rule capacity_ok_pop)
next
  case Attach
  then obtain r where "make_consumer_mc q = (r, q')" using st by (auto split: prod.splits)
  with ok show ?thesis by (rule capacity_ok_attach)
next
  case (Detach j)
  with st have d: "consumer_dtor j q = Some q'" by (auto split: option.splits)
  then have jl: "j < length (m_slots q)" and q': "q' = store_state j Free (store_tail j 0 q)"
    by (auto simp: consumer_dtor_def split: if_splits)
  show ?thesis by (rule capacity_ok_freed[OF ok jl]) (use jl in \<open>simp_all add: q'\<close>)
next
  case (Overwrite j)
  with st have d: "consumer_overwritten j q = Some q'" by (auto split: option.splits)
  then have jl: "j < length (m_slots q)" and q': "q' = store_state j Free q"
    by (auto simp: consumer_overwritten_def split: if_splits)
  show ?thesis by (rule capacity_ok_freed[OF ok jl]) (use jl in \<open>simp_all add: q'\<close>)
next
  case MakeProducerMc
  with st show ?thesis
    by (intro capacity_ok_cong[OF ok]) (auto simp: make_producer_mc_def split: if_splits)
next
  case DropProducerMc
  with st show ?thesis
    by (intro capacity_ok_cong[OF ok]) (auto simp: release_producer_mc_def)
qed

lemma capacity_ok_run:
  "capacity_ok N q \<Longrightarrow> spmc_run N cs q = Some (es, q') \<Longrightarrow>
   unat (m_head_mc q) + length (accepted es) < 2 ^ 64 \<Longrightarrow> capacity_ok N q'"
proof (induction cs arbitrary: q es)
  case Nil
  then show ?case by simp
next
  case (Cons c cs)
  from Cons.prems(2) obtain e q1 es1 where st: "spmc_step N c q = Some (e, q1)"
    and r: "spmc_run N cs q1 = Some (es1, q')" and es: "es = e # es1"
    by (auto split: option.splits prod.splits)
  have len: "length (accepted es) = length (accepted [e]) + length (accepted es1)"
    unfolding es by (subst accepted_Cons) simp
  have nw: "accepted [e] \<noteq> [] \<longrightarrow> m_head_mc q + 1 \<noteq> 0"
  proof
    assume "accepted [e] \<noteq> []"
    then have "0 < length (accepted [e])" by simp
    with Cons.prems(3) len have "unat (m_head_mc q) + 1 < 2 ^ 64" by linarith
    then show "m_head_mc q + 1 \<noteq> 0" by (rule unat_succ_no_wrap)
  qed
  from capacity_ok_step[OF Cons.prems(1) st nw] have ok1: "capacity_ok N q1" .
  have b1: "unat (m_head_mc q1) + length (accepted es1) < 2 ^ 64"
  proof (cases "accepted [e] = []")
    case True
    with spmc_step_head[OF st] Cons.prems(3) len show ?thesis by simp
  next
    case False
    then have l1: "length (accepted [e]) = 1" by (cases e) simp_all
    with Cons.prems(3) len have "unat (m_head_mc q) + 1 < 2 ^ 64" by linarith
    then have "unat (m_head_mc q + 1) = unat (m_head_mc q) + 1" by (rule unat_succ_no_wrap)
    with spmc_step_head[OF st] False Cons.prems(3) len l1 show ?thesis by simp
  qed
  from Cons.IH[OF ok1 r b1] show ?case .
qed

lemma capacity_ok_init: "capacity_ok N (SPMCQueue_init N M d)"
  by (auto simp: capacity_ok_def active_def SPMCQueue_init_def)

lemma push_impl_mc_full:
  assumes "active i q" "tail_of i q \<le> m_head_mc q" "N \<le> m_head_mc q - tail_of i q"
  shows "push_impl_mc N x q = (False, q)"
proof -
  from assms(3) active_room[OF assms(1,2)]
  have "N \<le> m_head_mc q - min_tail_snapshot (m_head_mc q) q" by (rule order_trans)
  then show ?thesis by (simp add: push_impl_mc_def)
qed

section \<open>Backpressure from a consumer that does not pop\<close>

lemma min_tail_snapshot_Min:
  "min_tail_snapshot h q = Min (insert h {tail_of j q |j. active j q})"
proof -
  let ?S = "insert h {tail_of j q |j. active j q}"
  have "{tail_of j q |j. active j q} = (\<lambda>j. tail_of j q) ` {j. active j q}" by auto
  moreover have "{j. active j q} \<subseteq> {..< length (m_slots q)}" by (auto simp: active_def)
  then have "finite {j. active j q}" by (rule finite_subset) simp
  ultimately have fin: "finite ?S" by simp
  have le: "min_tail_snapshot h q \<le> y" if "y \<in> ?S" for y
    using that min_tail_snapshot_le_head[of h q] min_tail_snapshot_le_active[of _ q h] by auto
  have mem: "min_tail_snapshot h q \<in> ?S"
  proof -
    from min_tail_loop_mem[of "m_slots q" h False]
    consider "min_tail_snapshot h q = h"
      | s where "s \<in> set (m_slots q)" "state s = Active" "min_tail_snapshot h q = tail s"
      by (auto simp: min_tail_snapshot_fst)
    then show ?thesis
    proof cases
      case 1
      then show ?thesis by simp
    next
      case 2
      from 2(1) obtain j where "j < length (m_slots q)" "m_slots q ! j = s"
        by (auto simp: in_set_conv_nth)
      with 2 have "active j q" "min_tail_snapshot h q = tail_of j q"
        by (simp_all add: active_def tail_of_def)
      then show ?thesis by blast
    qed
  qed
  from fin mem le show ?thesis by (intro Min_eqI[symmetric]) auto
qed

lemma idle_step:
  assumes a: "active i q" and st: "spmc_step N c q = Some (e, q')"
    and idle: "\<not> pops_slot i c" "\<not> frees_slot i c"
  shows "m_slots q' ! i = m_slots q ! i \<and> length (m_slots q') = length (m_slots q)"
proof (cases c)
  case (PushMc x)
  with st obtain b where "push_impl_mc N x q = (b, q')" by (auto split: prod.splits)
  from push_impl_mc_cases[OF this] show ?thesis by auto
next
  case (PopMc j)
  with idle have "j \<noteq> i" by simp
  moreover from PopMc st obtain r where "pop_impl_mc N j q = Some (r, q')"
    by (auto split: option.splits prod.splits)
  ultimately show ?thesis using pop_impl_mc_other by blast
next
  case (TryPopMc out j)
  with idle have "j \<noteq> i" by simp
  moreover from TryPopMc st obtain b out' where "try_pop_impl_mc N out j q = Some (b, out', q')"
    by (auto split: option.splits prod.splits)
  from try_pop_as_pop[OF this] have "pop_impl_mc N j q = Some (if b then Some out' else None, q')" .
  ultimately show ?thesis using pop_impl_mc_other by blast
next
  case Attach
  then obtain r where m: "make_consumer_mc q = (r, q')" using st by (auto split: prod.splits)
  show ?thesis
  proof (cases r)
    case None
    with m make_consumer_mc_None show ?thesis by blast
  next
    case (Some j)
    from make_consumer_mc_Some[OF m[unfolded Some]]
    have j: "state (m_slots q ! j) = Free"
      and q': "q' = q\<lparr>m_slots := (m_slots q)[j := \<lparr>state = Active, tail = m_head_mc q\<rparr>]\<rparr>"
      by auto
    from a j have "j \<noteq> i" by (auto simp: active_def)
    then show ?thesis by (simp add: q')
  qed
next
  case (Detach j)
  with idle have "j \<noteq> i" by simp
  with st Detach show ?thesis by (auto simp: consumer_dtor_def split: option.splits if_splits)
next
  case (Overwrite j)
  with idle have "j \<noteq> i" by simp
  with st Overwrite show ?thesis
    by (auto simp: consumer_overwritten_def split: option.splits if_splits)
next
  case MakeProducerMc
  with st show ?thesis by (auto simp: make_producer_mc_def split: prod.splits if_splits)
next
  case DropProducerMc
  with st show ?thesis by (auto simp: release_producer_mc_def)
qed

lemma spmc_step_accept_room:
  assumes "spmc_step N c q = Some (e, q')" "accepted [e] \<noteq> []"
  shows "m_head_mc q - min_tail_snapshot (m_head_mc q) q < N"
proof (cases c)
  case (PushMc x)
  with assms(1) obtain b where p: "push_impl_mc N x q = (b, q')"
    and e: "e = (if b then Accepted x else Full x)" by (auto split: prod.splits)
  from assms(2) e have "b" by (auto split: if_splits)
  with push_impl_mc_cases[OF p] show ?thesis by auto
next
  case (PopMc j)
  with assms show ?thesis by (auto split: option.splits prod.splits)
next
  case (TryPopMc out j)
  with assms show ?thesis by (auto split: option.splits prod.splits if_splits)
next
  case Attach
  with assms show ?thesis by (auto split: option.splits prod.splits)
next
  case (Detach j)
  with assms show ?thesis by (auto split: option.splits)
next
  case (Overwrite j)
  with assms show ?thesis by (auto split: option.splits)
next
  case MakeProducerMc
  with assms show ?thesis by (auto split: prod.splits)
next
  case DropProducerMc
  with assms show ?thesis by auto
qed

lemma idle_run:
  "active i q \<Longrightarrow> tail_of i q \<le> m_head_mc q \<Longrightarrow> unat (tail_of i q) + unat N < 2 ^ 64 \<Longrightarrow>
   spmc_run N cs q = Some (es, q') \<Longrightarrow> \<forall>c \<in> set cs. \<not> pops_slot i c \<and> \<not> frees_slot i c \<Longrightarrow>
   active i q' \<and> tail_of i q' = tail_of i q \<and> tail_of i q' \<le> m_head_mc q' \<and>
   unat (m_head_mc q') = unat (m_head_mc q) + length (accepted es) \<and>
   (accepted es \<noteq> [] \<longrightarrow> unat (m_head_mc q') \<le> unat (tail_of i q) + unat N)"
proof (induction cs arbitrary: q es)
  case Nil
  then show ?case by simp
next
  case (Cons c cs)
  let ?t = "tail_of i q" and ?h = "m_head_mc q"
  from Cons.prems(4) obtain e q1 es1 where st: "spmc_step N c q = Some (e, q1)"
    and r: "spmc_run N cs q1 = Some (es1, q')" and es: "es = e # es1"
    by (auto split: option.splits prod.splits)
  from Cons.prems(5) have idle: "\<not> pops_slot i c" "\<not> frees_slot i c"
    and idles: "\<forall>c \<in> set cs. \<not> pops_slot i c \<and> \<not> frees_slot i c" by auto
  from idle_step[OF Cons.prems(1) st idle]
  have a1: "active i q1" and t1: "tail_of i q1 = ?t"
    using Cons.prems(1) by (simp_all add: active_def tail_of_def)
  have len: "length (accepted es) = length (accepted [e]) + length (accepted es1)"
    unfolding es by (subst accepted_Cons) simp
  have ne: "accepted es \<noteq> []" if "accepted [e] \<noteq> [] \<or> accepted es1 \<noteq> []"
    using that len by auto
  have h1: "?t \<le> m_head_mc q1 \<and> unat (m_head_mc q1) = unat ?h + length (accepted [e]) \<and>
            (accepted [e] \<noteq> [] \<longrightarrow> unat (m_head_mc q1) \<le> unat ?t + unat N)"
  proof (cases "accepted [e] = []")
    case True
    with spmc_step_head[OF st] Cons.prems(2) show ?thesis by simp
  next
    case False
    then have l1: "length (accepted [e]) = 1" by (cases e) simp_all
    from spmc_step_accept_room[OF st False] active_room[OF Cons.prems(1,2)]
    have "?h - ?t < N" by (simp add: order_le_less_trans)
    then have "unat ?h - unat ?t < unat N"
      using Cons.prems(2) by (simp add: word_less_nat_alt unat_sub)
    moreover have "unat ?t \<le> unat ?h" using Cons.prems(2) by (simp add: word_le_nat_alt)
    ultimately have b: "unat ?h + 1 \<le> unat ?t + unat N" by linarith
    with Cons.prems(3) have "unat ?h + 1 < 2 ^ 64" by linarith
    from unat_succ_no_wrap[OF this] have nz: "?h + 1 \<noteq> 0" and u: "unat (?h + 1) = unat ?h + 1"
      by simp_all
    from word_le_succ[OF nz Cons.prems(2)] have "?t \<le> ?h + 1" .
    with spmc_step_head[OF st] False u l1 b show ?thesis by simp
  qed
  from Cons.prems(3) t1 have b1: "unat (tail_of i q1) + unat N < 2 ^ 64" by simp
  from h1 t1 have le1: "tail_of i q1 \<le> m_head_mc q1" by simp
  from Cons.IH[OF a1 le1 b1 r idles] t1
  have IH: "active i q'" "tail_of i q' = ?t" "tail_of i q' \<le> m_head_mc q'"
    "unat (m_head_mc q') = unat (m_head_mc q1) + length (accepted es1)"
    "accepted es1 \<noteq> [] \<longrightarrow> unat (m_head_mc q') \<le> unat ?t + unat N"
    by auto
  have "unat (m_head_mc q') = unat ?h + length (accepted es)" using IH(4) h1 len by simp
  moreover have "unat (m_head_mc q') \<le> unat ?t + unat N" if "accepted es \<noteq> []"
  proof (cases "accepted es1 = []")
    case True
    with that len have "accepted [e] \<noteq> []" by auto
    with h1 IH(4) True show ?thesis by simp
  next
    case False
    with IH(5) show ?thesis by simp
  qed
  ultimately show ?case using IH(1,2,3) by simp
qed

text \<open>
  Claim C2. Take a broadcast queue in which consumer \<open>i\<close> is attached with its cursor at
  the producer cursor, a producer cursor at least \<^verbatim>\<open>NumSlots\<close> below \<open>2 ^ 64\<close> (a fresh
  queue has it at 0), and any run in which consumer \<open>i\<close> neither pops nor goes away,
  whatever the other consumers do. The run gets at most \<^verbatim>\<open>NumSlots\<close> items accepted,
  and once it has got that many accepted the next push fails and changes nothing. A push
  succeeds exactly when the producer cursor minus the least of itself and the active
  cursors is below \<^verbatim>\<open>NumSlots\<close>.
\<close>

theorem backpressure:
  assumes a: "active i q0" and t0: "tail_of i q0 = m_head_mc q0"
    and nw: "unat (m_head_mc q0) + unat NumSlots < 2 ^ 64"
    and run: "spmc_run NumSlots cs q0 = Some (es, q)"
    and idle: "\<forall>c \<in> set cs. \<not> pops_slot i c \<and> \<not> frees_slot i c"
  shows "length (accepted es) \<le> unat NumSlots \<and>
         (length (accepted es) = unat NumSlots \<longrightarrow> push_impl_mc NumSlots x q = (False, q)) \<and>
         (fst (push_impl_mc NumSlots x q) \<longleftrightarrow>
            m_head_mc q - Min (insert (m_head_mc q) {tail_of j q |j. active j q}) < NumSlots)"
proof -
  from t0 have le0: "tail_of i q0 \<le> m_head_mc q0" by simp
  from nw t0 have nw0: "unat (tail_of i q0) + unat NumSlots < 2 ^ 64" by simp
  from idle_run[OF a le0 nw0 run idle] t0
  have aq: "active i q" and tq: "tail_of i q = m_head_mc q0" and le: "tail_of i q \<le> m_head_mc q"
    and u: "unat (m_head_mc q) = unat (m_head_mc q0) + length (accepted es)"
    and b: "accepted es \<noteq> [] \<longrightarrow> unat (m_head_mc q) \<le> unat (m_head_mc q0) + unat NumSlots"
    by auto
  have c1: "length (accepted es) \<le> unat NumSlots"
  proof (cases "accepted es = []")
    case True
    then show ?thesis by simp
  next
    case False
    with b u show ?thesis by simp
  qed
  have c2: "push_impl_mc NumSlots x q = (False, q)" if "length (accepted es) = unat NumSlots"
  proof -
    have "unat (m_head_mc q - tail_of i q) = unat (m_head_mc q) - unat (tail_of i q)"
      using le by (rule unat_sub)
    also have "\<dots> = unat NumSlots" using u tq that by simp
    finally have "NumSlots \<le> m_head_mc q - tail_of i q" by (simp add: word_le_nat_alt)
    with aq le show ?thesis by (rule push_impl_mc_full)
  qed
  have c3: "fst (push_impl_mc NumSlots x q) \<longleftrightarrow>
            m_head_mc q - Min (insert (m_head_mc q) {tail_of j q |j. active j q}) < NumSlots"
    unfolding min_tail_snapshot_Min[symmetric]
    by (auto simp: push_impl_mc_def Let_def not_le)
  from c1 c2 c3 show ?thesis by blast
qed

theorem backpressure_witness:
  "active 0 \<lparr>m_buffer_mc = [0, 0::nat], m_head_mc = 0,
         m_slots = [\<lparr>state = Active, tail = 0\<rparr>, \<lparr>state = Active, tail = 0\<rparr>],
         m_producer_claimed_mc = False\<rparr> \<and>
   spmc_run 2 [PushMc 5, PopMc 1, PushMc 6, PopMc 1, PushMc 7]
        \<lparr>m_buffer_mc = [0, 0::nat], m_head_mc = 0,
         m_slots = [\<lparr>state = Active, tail = 0\<rparr>, \<lparr>state = Active, tail = 0\<rparr>],
         m_producer_claimed_mc = False\<rparr>
     = Some ([Accepted 5, Got 1 5, Accepted 6, Got 1 6, Full 7],
        \<lparr>m_buffer_mc = [5, 6::nat], m_head_mc = 2,
         m_slots = [\<lparr>state = Active, tail = 0\<rparr>, \<lparr>state = Active, tail = 2\<rparr>],
         m_producer_claimed_mc = False\<rparr>) \<and>
   push_impl_mc 2 8
        \<lparr>m_buffer_mc = [5, 6::nat], m_head_mc = 2,
         m_slots = [\<lparr>state = Active, tail = 0\<rparr>, \<lparr>state = Active, tail = 2\<rparr>],
         m_producer_claimed_mc = False\<rparr>
     = (False,
        \<lparr>m_buffer_mc = [5, 6::nat], m_head_mc = 2,
         m_slots = [\<lparr>state = Active, tail = 0\<rparr>, \<lparr>state = Active, tail = 2\<rparr>],
         m_producer_claimed_mc = False\<rparr>)"
proof -
  let ?qa = "\<lparr>m_buffer_mc = [0, 0::nat], m_head_mc = 0,
         m_slots = [\<lparr>state = Active, tail = 0\<rparr>, \<lparr>state = Active, tail = 0\<rparr>],
         m_producer_claimed_mc = False\<rparr>"
  let ?cs = "[PushMc 5, PopMc 1, PushMc 6, PopMc 1, PushMc 7] :: nat spmc_op list"
  let ?es = "[Accepted 5, Got 1 5, Accepted 6, Got 1 6, Full (7::nat)]"
  let ?q = "\<lparr>m_buffer_mc = [5, 6::nat], m_head_mc = 2,
         m_slots = [\<lparr>state = Active, tail = 0\<rparr>, \<lparr>state = Active, tail = 2\<rparr>],
         m_producer_claimed_mc = False\<rparr>"
  have a: "active 0 ?qa" by (simp add: active_def)
  have t0: "tail_of 0 ?qa = m_head_mc ?qa" by (simp add: tail_of_def)
  have nw: "unat (m_head_mc ?qa) + unat (2::64 word) < 2 ^ 64" by simp
  have run: "spmc_run 2 ?cs ?qa = Some (?es, ?q)" by code_simp
  have idle: "\<forall>c \<in> set ?cs. \<not> pops_slot 0 c \<and> \<not> frees_slot 0 c" by simp
  have n: "length (accepted ?es) = unat (2::64 word)" by simp
  from backpressure[OF a t0 nw run idle, of 8] n
  have "push_impl_mc 2 8 ?q = (False, ?q)" by blast
  with a run show ?thesis by (intro conjI)
qed

section \<open>The cursors stay within the capacity\<close>

text \<open>
  Claim C5. In every state that a run reaches from a fresh single-consumer queue, the
  producer cursor minus the consumer cursor is at most \<^verbatim>\<open>NumSlots\<close>, and a push in a
  state where it is \<^verbatim>\<open>NumSlots\<close> fails and leaves the state as it is. The same holds
  for every active consumer cursor of the broadcast queue, in every state that a run of
  whole calls (\<open>spmc_run\<close>, in which \<^verbatim>\<open>make_consumer\<close> is not interleaved with a push)
  reaches from a fresh queue with fewer than \<open>2 ^ 64\<close> items accepted.
\<close>

theorem capacity_invariant:
  "(spsc_run NumSlots cs (SPSCQueue_init NumSlots d) = (es, q) \<longrightarrow>
      m_head q - m_tail q \<le> NumSlots \<and>
      (NumSlots \<le> m_head q - m_tail q \<longrightarrow> push_impl NumSlots x q = (False, q))) \<and>
   (spmc_run NumSlots cs' (SPMCQueue_init NumSlots MaxConsumers d') = Some (es', q') \<and>
    length (accepted es') < 2 ^ 64 \<longrightarrow>
      (\<forall>i. active i q' \<longrightarrow>
         m_head_mc q' - tail_of i q' \<le> NumSlots \<and>
         (NumSlots \<le> m_head_mc q' - tail_of i q' \<longrightarrow>
            push_impl_mc NumSlots x' q' = (False, q'))))"
proof (intro conjI impI allI)
  assume "spsc_run NumSlots cs (SPSCQueue_init NumSlots d) = (es, q)"
  moreover have "m_head (SPSCQueue_init NumSlots d) - m_tail (SPSCQueue_init NumSlots d) \<le> NumSlots"
    by (simp add: SPSCQueue_init_def)
  ultimately show "m_head q - m_tail q \<le> NumSlots" by (rule spsc_run_capacity[rotated])
next
  assume "NumSlots \<le> m_head q - m_tail q"
  then show "push_impl NumSlots x q = (False, q)" by (rule push_impl_full)
next
  fix i
  assume r: "spmc_run NumSlots cs' (SPMCQueue_init NumSlots MaxConsumers d') = Some (es', q') \<and>
    length (accepted es') < 2 ^ 64" and a: "active i q'"
  have "unat (m_head_mc (SPMCQueue_init NumSlots MaxConsumers d')) + length (accepted es') < 2 ^ 64"
    using r by (simp add: SPMCQueue_init_def)
  with capacity_ok_init[of NumSlots MaxConsumers d'] r have ok: "capacity_ok NumSlots q'"
    using capacity_ok_run[of NumSlots "SPMCQueue_init NumSlots MaxConsumers d'" cs' es' q'] by simp
  with a show "m_head_mc q' - tail_of i q' \<le> NumSlots" by (simp add: capacity_ok_def)
  assume "NumSlots \<le> m_head_mc q' - tail_of i q'"
  moreover from ok a have "tail_of i q' \<le> m_head_mc q'" by (simp add: capacity_ok_def)
  ultimately show "push_impl_mc NumSlots x' q' = (False, q')"
    using a push_impl_mc_full[of i q' NumSlots x'] by simp
qed

theorem capacity_invariant_witness:
  "spsc_run 2 [Push 1, Push 2, Push 3] (SPSCQueue_init 2 (0::nat))
     = ([PushOk 1, PushOk 2, PushFull 3],
        \<lparr>m_buffer = [1, 2], m_head = 2, m_tail = 0,
         m_producer_claimed = False, m_consumer_claimed = False\<rparr>) \<and>
   push_impl 2 9 \<lparr>m_buffer = [1, 2::nat], m_head = 2, m_tail = 0,
         m_producer_claimed = False, m_consumer_claimed = False\<rparr>
     = (False, \<lparr>m_buffer = [1, 2::nat], m_head = 2, m_tail = 0,
         m_producer_claimed = False, m_consumer_claimed = False\<rparr>) \<and>
   spmc_run 2 [Attach, PushMc 1, PushMc 2, PushMc 3] (SPMCQueue_init 2 1 (0::nat))
     = Some ([Attached 0, Accepted 1, Accepted 2, Full 3],
        \<lparr>m_buffer_mc = [1, 2], m_head_mc = 2, m_slots = [\<lparr>state = Active, tail = 0\<rparr>],
         m_producer_claimed_mc = False\<rparr>) \<and>
   active 0 \<lparr>m_buffer_mc = [1, 2::nat], m_head_mc = 2, m_slots = [\<lparr>state = Active, tail = 0\<rparr>],
         m_producer_claimed_mc = False\<rparr> \<and>
   push_impl_mc 2 9 \<lparr>m_buffer_mc = [1, 2::nat], m_head_mc = 2,
         m_slots = [\<lparr>state = Active, tail = 0\<rparr>], m_producer_claimed_mc = False\<rparr>
     = (False, \<lparr>m_buffer_mc = [1, 2::nat], m_head_mc = 2,
         m_slots = [\<lparr>state = Active, tail = 0\<rparr>], m_producer_claimed_mc = False\<rparr>)"
proof -
  let ?cs = "[Push 1, Push 2, Push 3] :: nat spsc_op list"
  let ?es = "[PushOk 1, PushOk 2, PushFull (3::nat)]"
  let ?qa = "\<lparr>m_buffer = [1, 2::nat], m_head = 2, m_tail = 0,
         m_producer_claimed = False, m_consumer_claimed = False\<rparr>"
  let ?cm = "[Attach, PushMc 1, PushMc 2, PushMc 3] :: nat spmc_op list"
  let ?em = "[Attached 0, Accepted 1, Accepted 2, Full (3::nat)]"
  let ?qm = "\<lparr>m_buffer_mc = [1, 2::nat], m_head_mc = 2,
         m_slots = [\<lparr>state = Active, tail = 0\<rparr>], m_producer_claimed_mc = False\<rparr>"
  have r1: "spsc_run 2 ?cs (SPSCQueue_init 2 (0::nat)) = (?es, ?qa)" by code_simp
  have r2: "spmc_run 2 ?cm (SPMCQueue_init 2 1 (0::nat)) = Some (?em, ?qm)" by code_simp
  have l: "length (accepted ?em) < 2 ^ 64" by simp
  have a: "active 0 ?qm" by (simp add: active_def)
  have f1: "2 \<le> m_head ?qa - m_tail ?qa" by simp
  have f2: "2 \<le> m_head_mc ?qm - tail_of 0 ?qm" by (simp add: tail_of_def)
  note c = capacity_invariant[where NumSlots = 2 and cs = ?cs and d = 0 and es = ?es and q = ?qa
      and x = 9 and cs' = ?cm and MaxConsumers = 1 and d' = 0 and es' = ?em and q' = ?qm and x' = 9]
  from c r1 f1 have p1: "push_impl 2 9 ?qa = (False, ?qa)" by blast
  from c r2 l a f2 have p2: "push_impl_mc 2 9 ?qm = (False, ?qm)" by blast
  from r1 p1 r2 a p2 show ?thesis by (intro conjI)
qed

subsection \<open>The broadcast queue after the producer cursor has wrapped\<close>

text \<open>
  With no consumer attached every push is accepted, so \<open>2 ^ 64 - 1\<close> pushes take the
  producer cursor of a fresh queue to \<open>2 ^ 64 - 1\<close>. A consumer that attaches then has
  that cursor. The next push wraps the producer cursor to 0; \<^verbatim>\<open>min_tail_snapshot\<close>
  compares the cursors as they are, so from then on the minimum is the producer cursor
  itself and every push is accepted. After three pushes the producer cursor is 2 and the
  cursor of the active consumer is 3 behind it, on a queue of two slots.
\<close>

lemma spmc_run_append:
  "spmc_run N (xs @ ys) q =
     (case spmc_run N xs q of
        None \<Rightarrow> None
      | Some (es, q') \<Rightarrow>
          (case spmc_run N ys q' of
             None \<Rightarrow> None
           | Some (es', q'') \<Rightarrow> Some (es @ es', q'')))"
  by (induction xs arbitrary: q) (auto split: option.splits)

lemma min_tail_loop_no_active:
  "\<forall>s \<in> set slots. state s \<noteq> Active \<Longrightarrow> min_tail_loop slots (m, a) = (m, a)"
  by (induction slots) simp_all

lemma push_no_consumer:
  assumes "\<forall>s \<in> set (m_slots q). state s \<noteq> Active" "N \<noteq> 0"
  shows "push_impl_mc N x q =
         (True, q\<lparr>m_buffer_mc := (m_buffer_mc q)[to_index N (m_head_mc q) := x],
                  m_head_mc := m_head_mc q + 1\<rparr>)"
proof -
  have "min_tail_snapshot (m_head_mc q) q = m_head_mc q"
    using assms(1) by (simp add: min_tail_snapshot_def min_tail_loop_no_active)
  moreover have "\<not> N \<le> 0" using assms(2) by (simp add: word_le_nat_alt unat_gt_0 not_le)
  ultimately show ?thesis by (simp add: push_impl_mc_def Let_def)
qed

lemma push_same_no_consumer:
  assumes "\<forall>s \<in> set (m_slots q). state s \<noteq> Active" "N \<noteq> 0" "\<forall>y \<in> set (m_buffer_mc q). y = x"
  shows "push_impl_mc N x q = (True, q\<lparr>m_head_mc := m_head_mc q + 1\<rparr>)"
proof -
  let ?i = "to_index N (m_head_mc q)"
  have "(m_buffer_mc q)[?i := x] = m_buffer_mc q"
  proof (cases "?i < length (m_buffer_mc q)")
    case True
    with assms(3) have "m_buffer_mc q ! ?i = x" by simp
    with True show ?thesis by (simp add: list_update_same_conv)
  next
    case False
    then show ?thesis by (simp add: list_update_beyond not_less)
  qed
  with push_no_consumer[OF assms(1,2), of x] show ?thesis by simp
qed

lemma run_pushes_same:
  "\<forall>s \<in> set (m_slots q). state s \<noteq> Active \<Longrightarrow> N \<noteq> 0 \<Longrightarrow> \<forall>y \<in> set (m_buffer_mc q). y = x \<Longrightarrow>
   spmc_run N (replicate n (PushMc x)) q
     = Some (replicate n (Accepted x), q\<lparr>m_head_mc := m_head_mc q + of_nat n\<rparr>)"
proof (induction n arbitrary: q)
  case 0
  then show ?case by simp
next
  case (Suc n)
  let ?q1 = "q\<lparr>m_head_mc := m_head_mc q + 1\<rparr>"
  have p: "push_impl_mc N x q = (True, ?q1)" using Suc.prems by (rule push_same_no_consumer)
  have "spmc_run N (replicate n (PushMc x)) ?q1
          = Some (replicate n (Accepted x), ?q1\<lparr>m_head_mc := m_head_mc ?q1 + of_nat n\<rparr>)"
    by (rule Suc.IH) (use Suc.prems in simp_all)
  moreover have "?q1\<lparr>m_head_mc := m_head_mc ?q1 + of_nat n\<rparr> = q\<lparr>m_head_mc := m_head_mc q + of_nat (Suc n)\<rparr>"
    by (simp add: add.assoc add.commute)
  ultimately show ?case using p by simp
qed

theorem capacity_invariant_counterexample:
  "spmc_run 2 (replicate (2 ^ 64 - 1) (PushMc 0) @ [Attach, PushMc 0, PushMc 0, PushMc 0])
        (SPMCQueue_init 2 1 (0::nat))
     = Some (replicate (2 ^ 64 - 1) (Accepted 0) @ [Attached 0, Accepted 0, Accepted 0, Accepted 0],
             \<lparr>m_buffer_mc = [0, 0], m_head_mc = 2,
              m_slots = [\<lparr>state = Active, tail = 18446744073709551615\<rparr>],
              m_producer_claimed_mc = False\<rparr>) \<and>
   active 0 \<lparr>m_buffer_mc = [0, 0::nat], m_head_mc = 2,
              m_slots = [\<lparr>state = Active, tail = 18446744073709551615\<rparr>],
              m_producer_claimed_mc = False\<rparr> \<and>
   \<not> m_head_mc \<lparr>m_buffer_mc = [0, 0::nat], m_head_mc = 2,
              m_slots = [\<lparr>state = Active, tail = 18446744073709551615\<rparr>],
              m_producer_claimed_mc = False\<rparr>
       - tail_of 0 \<lparr>m_buffer_mc = [0, 0::nat], m_head_mc = 2,
              m_slots = [\<lparr>state = Active, tail = 18446744073709551615\<rparr>],
              m_producer_claimed_mc = False\<rparr> \<le> 2"
proof -
  let ?qa = "SPMCQueue_init 2 1 (0::nat)"
  let ?qb = "\<lparr>m_buffer_mc = [0, 0::nat], m_head_mc = - 1,
              m_slots = [\<lparr>state = Free, tail = 0\<rparr>], m_producer_claimed_mc = False\<rparr>"
  let ?qc = "\<lparr>m_buffer_mc = [0, 0::nat], m_head_mc = 2,
              m_slots = [\<lparr>state = Active, tail = 18446744073709551615\<rparr>],
              m_producer_claimed_mc = False\<rparr>"
  have na: "\<forall>s \<in> set (m_slots ?qa). state s \<noteq> Active" by (simp add: SPMCQueue_init_def)
  have nz: "(2::64 word) \<noteq> 0" by simp
  have sm: "\<forall>y \<in> set (m_buffer_mc ?qa). y = 0" by (simp add: SPMCQueue_init_def)
  have w: "(of_nat (2 ^ 64 - 1) :: 64 word) = - 1" by simp
  have qa: "?qa\<lparr>m_head_mc := m_head_mc ?qa + of_nat (2 ^ 64 - 1)\<rparr> = ?qb"
  proof -
    have "replicate 2 (0::nat) = [0, 0]" by (simp add: numeral_2_eq_2)
    then show ?thesis by (simp only: w) (simp add: SPMCQueue_init_def)
  qed
  have r1: "spmc_run 2 (replicate (2 ^ 64 - 1) (PushMc 0)) ?qa
              = Some (replicate (2 ^ 64 - 1) (Accepted 0), ?qb)"
    using run_pushes_same[OF na nz sm, of "2 ^ 64 - 1"] by (simp only: qa)
  have r2: "spmc_run 2 [Attach, PushMc 0, PushMc 0, PushMc 0] ?qb
              = Some ([Attached 0, Accepted 0, Accepted 0, Accepted 0], ?qc)"
    by code_simp
  have r: "spmc_run 2 (replicate (2 ^ 64 - 1) (PushMc 0) @ [Attach, PushMc 0, PushMc 0, PushMc 0]) ?qa
          = Some (replicate (2 ^ 64 - 1) (Accepted 0) @ [Attached 0, Accepted 0, Accepted 0, Accepted 0], ?qc)"
    using r1 r2 by (simp only: spmc_run_append option.case prod.case)
  have a: "active 0 ?qc" by (simp add: active_def)
  have d: "\<not> m_head_mc ?qc - tail_of 0 ?qc \<le> 2" by (simp add: tail_of_def)
  from r a d show ?thesis by (intro conjI)
qed

section \<open>One producer at a time\<close>

lemma on_queue_simps [simp]:
  "producers (on_queue qa f w) = producers w"
  "consumers (on_queue qa f w) = consumers w"
  "queues (on_queue qa f w) qa = f (queues w qa)"
  "qb \<noteq> qa \<Longrightarrow> queues (on_queue qa f w) qb = queues w qb"
  by (simp_all add: on_queue_def)

lemma excl_frame:
  assumes "producer_exclusive w" "producers w' = producers w"
    "\<forall>qa. m_producer_claimed (queues w' qa) = m_producer_claimed (queues w qa)"
  shows "producer_exclusive w'"
  using assms by (simp add: producer_exclusive_def)

lemma excl_make_producer:
  assumes ex: "producer_exclusive w" and m: "make_producer_at qa ret w = Some (ok, w')"
  shows "producer_exclusive w'"
proof (cases "m_producer_claimed (queues w qa)")
  case True
  with m have "w' = w" by (simp add: make_producer_at_def make_producer_def)
  with ex show ?thesis by simp
next
  case False
  with m have fresh: "producers w ret = None"
    and p: "producers w' = (producers w)(ret \<mapsto> Some qa)"
    and q: "queues w' = (queues w)(qa := (queues w qa)\<lparr>m_producer_claimed := True\<rparr>)"
    by (auto simp: make_producer_at_def make_producer_def Producer_ctor_def on_queue_def
          split: if_splits)
  from ex False have none: "\<forall>h. producers w h \<noteq> Some (Some qa)"
    by (simp add: producer_exclusive_def)
  show ?thesis unfolding producer_exclusive_def
  proof (intro allI conjI impI)
    fix qb
    show "m_producer_claimed (queues w' qb) = (\<exists>h. producers w' h = Some (Some qb))"
    proof (cases "qb = qa")
      case True
      then show ?thesis by (auto simp: p q)
    next
      case False
      have "(producers w' h = Some (Some qb)) = (producers w h = Some (Some qb))" for h
        using False fresh by (auto simp: p)
      moreover have "m_producer_claimed (queues w' qb) = m_producer_claimed (queues w qb)"
        using False by (simp add: q)
      ultimately show ?thesis using ex by (simp add: producer_exclusive_def)
    qed
  next
    fix qb h h'
    assume a: "producers w' h = Some (Some qb) \<and> producers w' h' = Some (Some qb)"
    show "h = h'"
    proof (cases "qb = qa")
      case True
      with a none show ?thesis by (auto simp: p split: if_splits)
    next
      case False
      with a have "producers w h = Some (Some qb) \<and> producers w h' = Some (Some qb)"
        by (auto simp: p split: if_splits)
      with ex show ?thesis unfolding producer_exclusive_def by blast
    qed
  qed
qed

lemma excl_release:
  assumes ex: "producer_exclusive w" and h: "producers w this = Some (Some qa)"
    and p: "\<forall>h. h \<noteq> this \<longrightarrow> producers w' h = producers w h"
    and t: "producers w' this = None \<or> producers w' this = Some None"
    and q: "queues w' = (queues w)(qa := release_producer (queues w qa))"
  shows "producer_exclusive w'"
  unfolding producer_exclusive_def
proof (intro allI conjI impI)
  from ex h have only: "\<forall>h'. producers w h' = Some (Some qa) \<longrightarrow> h' = this"
    unfolding producer_exclusive_def by blast
  fix qb
  show "m_producer_claimed (queues w' qb) = (\<exists>h. producers w' h = Some (Some qb))"
  proof (cases "qb = qa")
    case True
    have "\<not> (\<exists>h. producers w' h = Some (Some qa))"
    proof
      assume "\<exists>h. producers w' h = Some (Some qa)"
      then obtain h' where h': "producers w' h' = Some (Some qa)" by blast
      with t have "h' \<noteq> this" by auto
      with p h' have "producers w h' = Some (Some qa)" by simp
      with only \<open>h' \<noteq> this\<close> show False by blast
    qed
    with True show ?thesis by (simp add: q release_producer_def)
  next
    case False
    have "(\<exists>h. producers w' h = Some (Some qb)) = (\<exists>h. producers w h = Some (Some qb))"
    proof
      assume "\<exists>h. producers w' h = Some (Some qb)"
      then obtain h' where h': "producers w' h' = Some (Some qb)" by blast
      with t have "h' \<noteq> this" by auto
      with p have "producers w' h' = producers w h'" by simp
      with h' show "\<exists>h. producers w h = Some (Some qb)" by auto
    next
      assume "\<exists>h. producers w h = Some (Some qb)"
      then obtain h' where h': "producers w h' = Some (Some qb)" by blast
      with h False have "h' \<noteq> this" by auto
      with p have "producers w' h' = producers w h'" by simp
      with h' show "\<exists>h. producers w' h = Some (Some qb)" by auto
    qed
    with ex False show ?thesis by (simp add: q producer_exclusive_def)
  qed
next
  fix qb h1 h2
  assume a: "producers w' h1 = Some (Some qb) \<and> producers w' h2 = Some (Some qb)"
  with t have "h1 \<noteq> this" "h2 \<noteq> this" by auto
  with p a have "producers w h1 = Some (Some qb) \<and> producers w h2 = Some (Some qb)" by simp
  with ex show "h1 = h2" unfolding producer_exclusive_def by blast
qed

lemma excl_drop_null:
  assumes ex: "producer_exclusive w" and h: "producers w this = Some None"
    and p: "\<forall>h. h \<noteq> this \<longrightarrow> producers w' h = producers w h"
    and t: "producers w' this = None \<or> producers w' this = Some None"
    and q: "queues w' = queues w"
  shows "producer_exclusive w'"
proof -
  have "(producers w' h' = Some (Some qb)) = (producers w h' = Some (Some qb))" for h' qb
    using h p t by (cases "h' = this") auto
  with ex q show ?thesis by (simp add: producer_exclusive_def)
qed

lemma excl_dtor:
  assumes ex: "producer_exclusive w" and d: "Producer_dtor this w = Some w'"
  shows "producer_exclusive w'"
proof -
  from d obtain m where m: "producers w this = Some m"
    by (auto simp: Producer_dtor_def split: option.splits)
  show ?thesis
  proof (cases m)
    case None
    with d m show ?thesis
      by (intro excl_drop_null[OF ex, of this]) (auto simp: Producer_dtor_def)
  next
    case (Some qa)
    with d m show ?thesis
      by (intro excl_release[OF ex, of this qa]) (auto simp: Producer_dtor_def on_queue_def)
  qed
qed

lemma excl_transfer:
  assumes ex: "producer_exclusive w" and ne: "this \<noteq> other"
    and o: "producers w other = Some m"
    and t: "producers w this = None \<or> producers w this = Some None"
    and p: "producers w' = (producers w)(this \<mapsto> m, other \<mapsto> None)"
    and q: "\<forall>qa. m_producer_claimed (queues w' qa) = m_producer_claimed (queues w qa)"
  shows "producer_exclusive w'"
  unfolding producer_exclusive_def
proof (intro allI conjI impI)
  have new: "(producers w' h = Some (Some qb)) =
             (if h = other then False else if h = this then m = Some qb
              else producers w h = Some (Some qb))" for h qb
    using ne by (auto simp: p)
  have old: "producers w this \<noteq> Some (Some qb)" for qb using t by auto
  fix qb
  have "(\<exists>h. producers w' h = Some (Some qb)) = (\<exists>h. producers w h = Some (Some qb))"
  proof
    assume "\<exists>h. producers w' h = Some (Some qb)"
    then obtain h where h: "producers w' h = Some (Some qb)" by blast
    show "\<exists>h. producers w h = Some (Some qb)"
    proof (cases "h = this")
      case True
      with h new[of h qb] ne have "m = Some qb" by (simp split: if_splits)
      with o show ?thesis by blast
    next
      case False
      with h new[of h qb] show ?thesis by (auto split: if_splits)
    qed
  next
    assume "\<exists>h. producers w h = Some (Some qb)"
    then obtain h where h: "producers w h = Some (Some qb)" by blast
    show "\<exists>h. producers w' h = Some (Some qb)"
    proof (cases "h = other")
      case True
      with h o have "m = Some qb" by simp
      with new[of this qb] ne show ?thesis by auto
    next
      case False
      with h old[of qb] have "h \<noteq> this" by auto
      with False h new[of h qb] show ?thesis by auto
    qed
  qed
  with ex q show "m_producer_claimed (queues w' qb) = (\<exists>h. producers w' h = Some (Some qb))"
    by (simp add: producer_exclusive_def)
  fix h1 h2
  assume a: "producers w' h1 = Some (Some qb) \<and> producers w' h2 = Some (Some qb)"
  define src where "src h = (if h = this then other else h)" for h
  have b: "producers w (src h) = Some (Some qb)" if "producers w' h = Some (Some qb)" for h
    using that new[of h qb] o by (auto simp: src_def split: if_splits)
  have inj: "h = h'" if "src h = src h'" "producers w' h = Some (Some qb)"
    "producers w' h' = Some (Some qb)" for h h'
    using that new[of h qb] new[of h' qb] by (auto simp: src_def split: if_splits)
  from a b have "producers w (src h1) = Some (Some qb)" "producers w (src h2) = Some (Some qb)"
    by simp_all
  with ex have "src h1 = src h2" unfolding producer_exclusive_def by blast
  with inj a show "h1 = h2" by blast
qed

lemma excl_move_ctor:
  assumes ex: "producer_exclusive w" and m: "Producer_move_ctor this other w = Some w'"
  shows "producer_exclusive w'"
proof -
  from m obtain om where o: "producers w other = Some om" and t: "producers w this = None"
    and w': "w' = w\<lparr>producers := (producers w)(this \<mapsto> om, other \<mapsto> None)\<rparr>"
    by (auto simp: Producer_move_ctor_def split: option.splits if_splits)
  from o t have "this \<noteq> other" by auto
  with ex show ?thesis
    by (rule excl_transfer[where m = om]) (use o t in \<open>simp_all add: w'\<close>)
qed

lemma excl_move_assign:
  assumes ex: "producer_exclusive w" and m: "Producer_move_assign this other w = Some w'"
  shows "producer_exclusive w'"
proof (cases "this = other")
  case True
  with m have "w' = w" by (auto simp: Producer_move_assign_def split: option.splits)
  with ex show ?thesis by simp
next
  case False
  with m obtain tm om where t: "producers w this = Some tm" and o: "producers w other = Some om"
    and w': "w' = (case tm of None \<Rightarrow> w | Some qa \<Rightarrow> on_queue qa release_producer w)
                 \<lparr>producers := (producers w)(this \<mapsto> om, other \<mapsto> None)\<rparr>"
    by (auto simp: Producer_move_assign_def Let_def split: option.splits if_splits)
  show ?thesis
  proof (cases tm)
    case None
    from ex False o show ?thesis
      by (rule excl_transfer[where m = om]) (use t None in \<open>simp_all add: w'\<close>)
  next
    case (Some qa)
    let ?w1 = "(on_queue qa release_producer w)\<lparr>producers := (producers w)(this \<mapsto> None)\<rparr>"
    have ex1: "producer_exclusive ?w1"
      by (rule excl_release[OF ex, of this qa]) (use t Some in \<open>auto simp: on_queue_def\<close>)
    have o1: "producers ?w1 other = Some om" using o False by simp
    from ex1 False o1 show ?thesis
      by (rule excl_transfer[where m = om]) (simp_all add: w' Some on_queue_def)
  qed
qed

lemma excl_consumer_calls:
  assumes ex: "producer_exclusive w"
  shows "make_consumer_at qa ret w = Some (ok, w') \<Longrightarrow> producer_exclusive w'"
    and "Consumer_dtor h w = Some w' \<Longrightarrow> producer_exclusive w'"
    and "Consumer_move_ctor h h' w = Some w' \<Longrightarrow> producer_exclusive w'"
    and "Consumer_move_assign h h' w = Some w' \<Longrightarrow> producer_exclusive w'"
proof -
  have f: "producer_exclusive (on_queue qb g w\<lparr>consumers := cm\<rparr>)"
    if "\<forall>q. m_producer_claimed (g q) = m_producer_claimed q" for qb g cm
    by (rule excl_frame[OF ex]) (use that in \<open>auto simp: on_queue_def\<close>)
  have f0: "producer_exclusive (w\<lparr>consumers := cm\<rparr>)" for cm
    by (rule excl_frame[OF ex]) simp_all
  have g: "producer_exclusive (on_queue qb (\<lambda>q. q1) w\<lparr>consumers := cm\<rparr>)"
    if "m_producer_claimed q1 = m_producer_claimed (queues w qb)" for qb q1 cm
    by (rule excl_frame[OF ex]) (use that in \<open>auto simp: on_queue_def\<close>)
  show "make_consumer_at qa ret w = Some (ok, w') \<Longrightarrow> producer_exclusive w'"
    using ex g[of "queues w qa\<lparr>m_consumer_claimed := True\<rparr>" qa]
    by (auto simp: make_consumer_at_def make_consumer_def Consumer_ctor_def
          split: if_splits)
  show "Consumer_dtor h w = Some w' \<Longrightarrow> producer_exclusive w'"
    using f[of release_consumer] f0
    by (auto simp: Consumer_dtor_def release_consumer_def Let_def split: option.splits)
  show "Consumer_move_ctor h h' w = Some w' \<Longrightarrow> producer_exclusive w'"
    using f0 by (auto simp: Consumer_move_ctor_def split: option.splits if_splits)
  show "Consumer_move_assign h h' w = Some w' \<Longrightarrow> producer_exclusive w'"
    using ex f[of release_consumer] f0
    by (auto simp: Consumer_move_assign_def release_consumer_def Let_def
          split: option.splits if_splits)
qed

lemma excl_queue_calls:
  assumes ex: "producer_exclusive w"
  shows "Producer_push N h x w = Some (ok, w') \<Longrightarrow> producer_exclusive w'"
    and "Consumer_pop N h w = Some (r, w') \<Longrightarrow> producer_exclusive w'"
    and "Consumer_try_pop N h out w = Some (ok, out', w') \<Longrightarrow> producer_exclusive w'"
proof -
  have f: "producer_exclusive (on_queue qb (\<lambda>q. q1) w)"
    if "m_producer_claimed q1 = m_producer_claimed (queues w qb)" for qb q1
    by (rule excl_frame[OF ex]) (use that in \<open>auto simp: on_queue_def\<close>)
  show "Producer_push N h x w = Some (ok, w') \<Longrightarrow> producer_exclusive w'"
    using f by (auto simp: Producer_push_def push_impl_def Let_def split: option.splits if_splits)
  show "Consumer_pop N h w = Some (r, w') \<Longrightarrow> producer_exclusive w'"
    using f by (auto simp: Consumer_pop_def pop_impl_def Let_def split: option.splits if_splits)
  show "Consumer_try_pop N h out w = Some (ok, out', w') \<Longrightarrow> producer_exclusive w'"
    using f by (auto simp: Consumer_try_pop_def try_pop_impl_def Let_def
                  split: option.splits if_splits)
qed

lemma excl_step:
  assumes ex: "producer_exclusive w" and st: "spsc_call_step N c w = Some w'"
    and nc: "\<not> constructs_producer c"
  shows "producer_exclusive w'"
proof (cases c)
  case (CallMakeProducer qa ret)
  with st obtain ok where "make_producer_at qa ret w = Some (ok, w')" by auto
  with ex show ?thesis by (rule excl_make_producer)
next
  case (ConstructProducer h qa)
  with nc show ?thesis by simp
next
  case (ConstructConsumer h qa)
  with st have "w' = w\<lparr>consumers := (consumers w)(h \<mapsto> Some qa)\<rparr>"
    by (auto simp: Consumer_ctor_def split: if_splits)
  then show ?thesis by (intro excl_frame[OF ex]) simp_all
next
  case (CallMakeConsumer qa ret)
  with st obtain ok where "make_consumer_at qa ret w = Some (ok, w')" by auto
  then show ?thesis by (rule excl_consumer_calls(1)[OF ex])
next
  case (DestroyProducer h)
  with st ex show ?thesis by (auto intro: excl_dtor)
next
  case (DestroyConsumer h)
  with st show ?thesis by (auto intro: excl_consumer_calls(2)[OF ex])
next
  case (MoveProducer h h')
  with st ex show ?thesis by (auto intro: excl_move_ctor)
next
  case (MoveConsumer h h')
  with st show ?thesis by (auto intro: excl_consumer_calls(3)[OF ex])
next
  case (AssignProducer h h')
  with st ex show ?thesis by (auto intro: excl_move_assign)
next
  case (AssignConsumer h h')
  with st show ?thesis by (auto intro: excl_consumer_calls(4)[OF ex])
next
  case (CallPush h x)
  with st obtain ok where "Producer_push N h x w = Some (ok, w')" by auto
  then show ?thesis by (rule excl_queue_calls(1)[OF ex])
next
  case (CallPop h)
  with st obtain r where "Consumer_pop N h w = Some (r, w')" by auto
  then show ?thesis by (rule excl_queue_calls(2)[OF ex])
next
  case (CallTryPop h out)
  with st obtain ok out' where "Consumer_try_pop N h out w = Some (ok, out', w')" by auto
  then show ?thesis by (rule excl_queue_calls(3)[OF ex])
qed

lemma excl_program:
  "producer_exclusive w \<Longrightarrow> spsc_program N cs w = Some w' \<Longrightarrow>
   \<forall>c \<in> set cs. \<not> constructs_producer c \<Longrightarrow> producer_exclusive w'"
proof (induction cs arbitrary: w)
  case Nil
  then show ?case by simp
next
  case (Cons c cs)
  from Cons.prems(2) obtain w1 where st: "spsc_call_step N c w = Some w1"
    and r: "spsc_program N cs w1 = Some w'" by (auto split: option.splits)
  from Cons.prems(3) have nc: "\<not> constructs_producer c" "\<forall>c \<in> set cs. \<not> constructs_producer c"
    by auto
  from excl_step[OF Cons.prems(1) st nc(1)] have "producer_exclusive w1" .
  from Cons.IH[OF this r nc(2)] show ?case .
qed

lemma excl_init: "producer_exclusive (SPSC_world_init N d)"
  by (simp add: producer_exclusive_def SPSC_world_init_def SPSCQueue_init_def)

lemma make_producer_at_claimed:
  "m_producer_claimed (queues w qa) \<Longrightarrow> make_producer_at qa ret w = Some (False, w)"
  by (simp add: make_producer_at_def make_producer_def)

lemma make_producer_at_free:
  assumes "\<not> m_producer_claimed (queues w qa)" "ret \<notin> dom (producers w)"
  shows "\<exists>w'. make_producer_at qa ret w = Some (True, w') \<and> producers w' ret = Some (Some qa) \<and>
              m_producer_claimed (queues w' qa)"
  using assms by (auto simp: make_producer_at_def make_producer_def Producer_ctor_def)

lemma Producer_dtor_holder:
  assumes "producers w h = Some (Some qa)"
  shows "\<exists>w1. Producer_dtor h w = Some w1 \<and> \<not> m_producer_claimed (queues w1 qa) \<and>
              producers w1 h = None"
  using assms by (simp add: Producer_dtor_def release_producer_def)

text \<open>
  In a program on fresh queues that gets its producer handles from \<^verbatim>\<open>make_producer\<close>
  only, never from the public constructor: no two live producer handles point to the
  same queue; \<^verbatim>\<open>make_producer\<close> of a queue returns no handle while a live producer
  handle points to that queue and returns one that points to it otherwise; and once the
  handle that points to a queue is destroyed, \<^verbatim>\<open>make_producer\<close> of that queue returns
  a handle again.
\<close>

lemma exclusive_through_make_producer:
  assumes "spsc_program NumSlots cs (SPSC_world_init NumSlots d) = Some w"
    and "\<forall>c \<in> set cs. \<not> constructs_producer c"
  shows "(\<forall>qa h h'. producers w h = Some (Some qa) \<and> producers w h' = Some (Some qa) \<longrightarrow> h = h') \<and>
         (\<forall>qa ret. ret \<notin> dom (producers w) \<longrightarrow>
            (if \<exists>h. producers w h = Some (Some qa)
             then make_producer_at qa ret w = Some (False, w)
             else \<exists>w'. make_producer_at qa ret w = Some (True, w') \<and>
                       producers w' ret = Some (Some qa))) \<and>
         (\<forall>qa h. producers w h = Some (Some qa) \<longrightarrow>
            (\<exists>w1. Producer_dtor h w = Some w1 \<and>
               (\<forall>ret. ret \<notin> dom (producers w1) \<longrightarrow>
                  (\<exists>w2. make_producer_at qa ret w1 = Some (True, w2) \<and>
                         producers w2 ret = Some (Some qa)))))"
proof -
  from excl_program[OF excl_init assms] have ex: "producer_exclusive w" .
  then have fl: "m_producer_claimed (queues w qa) \<longleftrightarrow> (\<exists>h. producers w h = Some (Some qa))" for qa
    by (simp add: producer_exclusive_def)
  have a: "\<forall>qa h h'. producers w h = Some (Some qa) \<and> producers w h' = Some (Some qa) \<longrightarrow> h = h'"
    using ex unfolding producer_exclusive_def by blast
  have b: "if \<exists>h. producers w h = Some (Some qa)
           then make_producer_at qa ret w = Some (False, w)
           else \<exists>w'. make_producer_at qa ret w = Some (True, w') \<and>
                     producers w' ret = Some (Some qa)"
    if "ret \<notin> dom (producers w)" for qa ret
  proof (cases "\<exists>h. producers w h = Some (Some qa)")
    case True
    with fl[of qa] make_producer_at_claimed[of w qa ret] show ?thesis by simp
  next
    case False
    with fl[of qa] make_producer_at_free[of w qa ret] that show ?thesis by auto
  qed
  have c: "\<exists>w1. Producer_dtor h w = Some w1 \<and>
               (\<forall>ret. ret \<notin> dom (producers w1) \<longrightarrow>
                  (\<exists>w2. make_producer_at qa ret w1 = Some (True, w2) \<and>
                         producers w2 ret = Some (Some qa)))"
    if "producers w h = Some (Some qa)" for qa h
  proof -
    from Producer_dtor_holder[OF that] obtain w1 where d: "Producer_dtor h w = Some w1"
      and f: "\<not> m_producer_claimed (queues w1 qa)" by blast
    have "\<exists>w2. make_producer_at qa ret w1 = Some (True, w2) \<and> producers w2 ret = Some (Some qa)"
      if "ret \<notin> dom (producers w1)" for ret
      using make_producer_at_free[OF f that] by blast
    with d show ?thesis by blast
  qed
  from a b c show ?thesis by blast
qed

text \<open>
  Claim C7. \<^verbatim>\<open>make_producer\<close> returns a handle when no producer handle is live and
  none while one is live, and returns one again after the live handle is destroyed, so
  that at most one producer handle is live at any time. The constructor
  \<^verbatim>\<open>Producer(SPSCQueue&)\<close> is public and makes a live handle without taking the claim:
  after it, \<^verbatim>\<open>make_producer\<close> of the same queue returns a second live handle; the
  destructor of the constructed handle then clears the claim while the second handle is
  live, and \<^verbatim>\<open>make_producer\<close> returns a third handle, with the second still live.
\<close>

theorem producer_claim_bypassed:
  "map_option (\<lambda>w. (producers w 10, producers w 11, m_producer_claimed (queues w 0)))
     (spsc_program 2 [ConstructProducer 10 0, CallMakeProducer 0 11]
        (SPSC_world_init 2 (0::nat)))
     = Some (Some (Some 0), Some (Some 0), True) \<and>
   map_option (\<lambda>w. (producers w 10, producers w 11, m_producer_claimed (queues w 0)))
     (spsc_program 2 [ConstructProducer 10 0, CallMakeProducer 0 11, DestroyProducer 10]
        (SPSC_world_init 2 (0::nat)))
     = Some (None, Some (Some 0), False) \<and>
   map_option (\<lambda>w. (producers w 11, producers w 12, m_producer_claimed (queues w 0)))
     (spsc_program 2
        [ConstructProducer 10 0, CallMakeProducer 0 11, DestroyProducer 10, CallMakeProducer 0 12]
        (SPSC_world_init 2 (0::nat)))
     = Some (Some (Some 0), Some (Some 0), True)"
  by (simp add: SPSC_world_init_def SPSCQueue_init_def Producer_ctor_def make_producer_at_def
        make_producer_def Producer_dtor_def on_queue_def release_producer_def)

section \<open>Moving a handle\<close>

text \<open>
  The move constructor and the move assignment of the three handle classes leave the
  handle moved from with a null queue pointer, so that its destructor changes no queue.
  The move constructor changes no queue. The move assignment releases what the handle
  assigned to held before, and changes nothing else of any queue.
\<close>

lemma Producer_moves:
  "Producer_move_ctor this other w = Some w' \<Longrightarrow>
     queues w' = queues w \<and> producers w' this = producers w other \<and>
     producers w' other = Some None \<and>
     (\<exists>w''. Producer_dtor other w' = Some w'' \<and> queues w'' = queues w')"
  "this \<noteq> other \<Longrightarrow> Producer_move_assign this other w = Some w' \<Longrightarrow>
     producers w' this = producers w other \<and> producers w' other = Some None \<and>
     (\<forall>qa. producers w this \<noteq> Some (Some qa) \<longrightarrow> queues w' qa = queues w qa) \<and>
     (\<exists>w''. Producer_dtor other w' = Some w'' \<and> queues w'' = queues w')"
  "Producer_move_assign this this w = Some w' \<Longrightarrow> w' = w"
  by (auto simp: Producer_move_ctor_def Producer_move_assign_def Producer_dtor_def on_queue_def
        Let_def split: option.splits if_splits)

lemma Consumer_moves:
  "Consumer_move_ctor this other w = Some w' \<Longrightarrow>
     queues w' = queues w \<and> consumers w' this = consumers w other \<and>
     consumers w' other = Some None \<and>
     (\<exists>w''. Consumer_dtor other w' = Some w'' \<and> queues w'' = queues w')"
  "this \<noteq> other \<Longrightarrow> Consumer_move_assign this other w = Some w' \<Longrightarrow>
     consumers w' this = consumers w other \<and> consumers w' other = Some None \<and>
     (\<forall>qa. consumers w this \<noteq> Some (Some qa) \<longrightarrow> queues w' qa = queues w qa) \<and>
     (\<exists>w''. Consumer_dtor other w' = Some w'' \<and> queues w'' = queues w')"
  "Consumer_move_assign this this w = Some w' \<Longrightarrow> w' = w"
  by (auto simp: Consumer_move_ctor_def Consumer_move_assign_def Consumer_dtor_def on_queue_def
        Let_def split: option.splits if_splits)

lemma Consumer_mc_moves:
  "Consumer_mc_move_ctor this other w = Some w' \<Longrightarrow>
     queues_mc w' = queues_mc w \<and> consumers_mc w' this = consumers_mc w other \<and>
     (\<exists>oc. consumers_mc w' other = Some oc \<and> m_queue oc = None) \<and>
     (\<exists>w''. Consumer_mc_dtor other w' = Some w'' \<and> queues_mc w'' = queues_mc w')"
  "this \<noteq> other \<Longrightarrow> Consumer_mc_move_assign this other w = Some w' \<Longrightarrow>
     consumers_mc w' this = consumers_mc w other \<and>
     (\<exists>oc. consumers_mc w' other = Some oc \<and> m_queue oc = None) \<and>
     (\<forall>c qa. consumers_mc w this = Some c \<and> m_queue c \<noteq> Some qa \<longrightarrow>
           queues_mc w' qa = queues_mc w qa) \<and>
     (\<forall>c qa j. consumers_mc w this = Some c \<and> j \<noteq> m_slot_idx c \<longrightarrow>
           m_slots (queues_mc w' qa) ! j = m_slots (queues_mc w qa) ! j) \<and>
     (\<exists>w''. Consumer_mc_dtor other w' = Some w'' \<and> queues_mc w'' = queues_mc w')"
  "Consumer_mc_move_assign this this w = Some w' \<Longrightarrow> w' = w"
  by (auto simp: Consumer_mc_move_ctor_def Consumer_mc_move_assign_def Consumer_mc_dtor_def
        consumer_overwritten_def Let_def split: option.splits if_splits)

lemma move_keeps_claim:
  "(Producer_move_ctor this other w = Some w' \<longrightarrow>
      queues w' = queues w \<and> producers w' this = producers w other \<and>
      producers w' other = Some None \<and>
      (\<exists>w''. Producer_dtor other w' = Some w'' \<and> queues w'' = queues w')) \<and>
   (this \<noteq> other \<and> Producer_move_assign this other w = Some w' \<longrightarrow>
      producers w' this = producers w other \<and> producers w' other = Some None \<and>
      (\<forall>qa. producers w this \<noteq> Some (Some qa) \<longrightarrow> queues w' qa = queues w qa) \<and>
      (\<exists>w''. Producer_dtor other w' = Some w'' \<and> queues w'' = queues w')) \<and>
   (Producer_move_assign this this w = Some w' \<longrightarrow> w' = w) \<and>
   (Consumer_move_ctor this other w = Some w' \<longrightarrow>
      queues w' = queues w \<and> consumers w' this = consumers w other \<and>
      consumers w' other = Some None \<and>
      (\<exists>w''. Consumer_dtor other w' = Some w'' \<and> queues w'' = queues w')) \<and>
   (this \<noteq> other \<and> Consumer_move_assign this other w = Some w' \<longrightarrow>
      consumers w' this = consumers w other \<and> consumers w' other = Some None \<and>
      (\<forall>qa. consumers w this \<noteq> Some (Some qa) \<longrightarrow> queues w' qa = queues w qa) \<and>
      (\<exists>w''. Consumer_dtor other w' = Some w'' \<and> queues w'' = queues w')) \<and>
   (Consumer_move_assign this this w = Some w' \<longrightarrow> w' = w) \<and>
   (Consumer_mc_move_ctor this other v = Some v' \<longrightarrow>
      queues_mc v' = queues_mc v \<and> consumers_mc v' this = consumers_mc v other \<and>
      (\<exists>oc. consumers_mc v' other = Some oc \<and> m_queue oc = None) \<and>
      (\<exists>v''. Consumer_mc_dtor other v' = Some v'' \<and> queues_mc v'' = queues_mc v')) \<and>
   (this \<noteq> other \<and> Consumer_mc_move_assign this other v = Some v' \<longrightarrow>
      consumers_mc v' this = consumers_mc v other \<and>
      (\<exists>oc. consumers_mc v' other = Some oc \<and> m_queue oc = None) \<and>
      (\<forall>c qa. consumers_mc v this = Some c \<and> m_queue c \<noteq> Some qa \<longrightarrow>
            queues_mc v' qa = queues_mc v qa) \<and>
      (\<forall>c qa j. consumers_mc v this = Some c \<and> j \<noteq> m_slot_idx c \<longrightarrow>
            m_slots (queues_mc v' qa) ! j = m_slots (queues_mc v qa) ! j) \<and>
      (\<exists>v''. Consumer_mc_dtor other v' = Some v'' \<and> queues_mc v'' = queues_mc v')) \<and>
   (Consumer_mc_move_assign this this v = Some v' \<longrightarrow> v' = v)"
proof (intro conjI)
  show "Producer_move_ctor this other w = Some w' \<longrightarrow>
      queues w' = queues w \<and> producers w' this = producers w other \<and>
      producers w' other = Some None \<and>
      (\<exists>w''. Producer_dtor other w' = Some w'' \<and> queues w'' = queues w')"
    by (rule impI) (erule Producer_moves(1))
  show "this \<noteq> other \<and> Producer_move_assign this other w = Some w' \<longrightarrow>
      producers w' this = producers w other \<and> producers w' other = Some None \<and>
      (\<forall>qa. producers w this \<noteq> Some (Some qa) \<longrightarrow> queues w' qa = queues w qa) \<and>
      (\<exists>w''. Producer_dtor other w' = Some w'' \<and> queues w'' = queues w')"
    by (rule impI, elim conjE) (erule (1) Producer_moves(2))
  show "Producer_move_assign this this w = Some w' \<longrightarrow> w' = w"
    by (rule impI) (erule Producer_moves(3))
  show "Consumer_move_ctor this other w = Some w' \<longrightarrow>
      queues w' = queues w \<and> consumers w' this = consumers w other \<and>
      consumers w' other = Some None \<and>
      (\<exists>w''. Consumer_dtor other w' = Some w'' \<and> queues w'' = queues w')"
    by (rule impI) (erule Consumer_moves(1))
  show "this \<noteq> other \<and> Consumer_move_assign this other w = Some w' \<longrightarrow>
      consumers w' this = consumers w other \<and> consumers w' other = Some None \<and>
      (\<forall>qa. consumers w this \<noteq> Some (Some qa) \<longrightarrow> queues w' qa = queues w qa) \<and>
      (\<exists>w''. Consumer_dtor other w' = Some w'' \<and> queues w'' = queues w')"
    by (rule impI, elim conjE) (erule (1) Consumer_moves(2))
  show "Consumer_move_assign this this w = Some w' \<longrightarrow> w' = w"
    by (rule impI) (erule Consumer_moves(3))
  show "Consumer_mc_move_ctor this other v = Some v' \<longrightarrow>
      queues_mc v' = queues_mc v \<and> consumers_mc v' this = consumers_mc v other \<and>
      (\<exists>oc. consumers_mc v' other = Some oc \<and> m_queue oc = None) \<and>
      (\<exists>v''. Consumer_mc_dtor other v' = Some v'' \<and> queues_mc v'' = queues_mc v')"
    by (rule impI) (erule Consumer_mc_moves(1))
  show "this \<noteq> other \<and> Consumer_mc_move_assign this other v = Some v' \<longrightarrow>
      consumers_mc v' this = consumers_mc v other \<and>
      (\<exists>oc. consumers_mc v' other = Some oc \<and> m_queue oc = None) \<and>
      (\<forall>c qa. consumers_mc v this = Some c \<and> m_queue c \<noteq> Some qa \<longrightarrow>
            queues_mc v' qa = queues_mc v qa) \<and>
      (\<forall>c qa j. consumers_mc v this = Some c \<and> j \<noteq> m_slot_idx c \<longrightarrow>
            m_slots (queues_mc v' qa) ! j = m_slots (queues_mc v qa) ! j) \<and>
      (\<exists>v''. Consumer_mc_dtor other v' = Some v'' \<and> queues_mc v'' = queues_mc v')"
    by (rule impI, elim conjE) (erule (1) Consumer_mc_moves(2))
  show "Consumer_mc_move_assign this this v = Some v' \<longrightarrow> v' = v"
    by (rule impI) (erule Consumer_mc_moves(3))
qed

text \<open>
  Claim C10. Moving a handle never frees the claimed role and never causes a double
  release: only the handle that holds the queue pointer releases, on destruction. The
  move assignment releases the role the target held before it takes the pointer of the
  source. When the target was made by the public constructor on the queue whose claim
  the source holds, that release clears the very claim being moved: after the
  assignment the target is a live producer handle of the queue, the claim flag is
  clear, and \<^verbatim>\<open>make_producer\<close> returns a second live handle.
\<close>

theorem move_assign_frees_moved_role:
  "map_option (\<lambda>w. (producers w 10, producers w 11, m_producer_claimed (queues w 0)))
     (spsc_program 2 [ConstructProducer 10 0, CallMakeProducer 0 11]
        (SPSC_world_init 2 (0::nat)))
     = Some (Some (Some 0), Some (Some 0), True) \<and>
   map_option (\<lambda>w. (producers w 10, producers w 11, m_producer_claimed (queues w 0)))
     (spsc_program 2 [ConstructProducer 10 0, CallMakeProducer 0 11, AssignProducer 10 11]
        (SPSC_world_init 2 (0::nat)))
     = Some (Some (Some 0), Some None, False) \<and>
   map_option (\<lambda>w. (producers w 10, producers w 12, m_producer_claimed (queues w 0)))
     (spsc_program 2
        [ConstructProducer 10 0, CallMakeProducer 0 11, AssignProducer 10 11, CallMakeProducer 0 12]
        (SPSC_world_init 2 (0::nat)))
     = Some (Some (Some 0), Some (Some 0), True)"
  by (simp add: SPSC_world_init_def SPSCQueue_init_def Producer_ctor_def make_producer_at_def
        make_producer_def Producer_move_assign_def on_queue_def release_producer_def)

section \<open>Releasing and reusing a consumer slot\<close>

text \<open>
  The destructor of a consumer handle that holds slot \<open>i\<close> of a queue stores 0 in the
  cursor of the slot and then \<open>Free\<close> in its state. The cursor of a slot that is not
  active has no part in \<^verbatim>\<open>min_tail_snapshot\<close>. The compare-and-exchange of
  \<^verbatim>\<open>make_consumer\<close> succeeds on the freed slot, and a \<^verbatim>\<open>make_consumer\<close> that runs
  with no step of another thread in between returns the lowest free slot, which is \<open>i\<close>
  when no slot below \<open>i\<close> is free, with the producer cursor of that moment in it.
\<close>

lemma min_tail_snapshot_skips_free:
  assumes "state (m_slots q ! i) \<noteq> Active"
  shows "min_tail_snapshot hv (store_tail i v q) = min_tail_snapshot hv q"
    and "min_tail_snapshot hv q = Min (insert hv {tail_of j q |j. active j q \<and> j \<noteq> i})"
proof -
  have na: "\<not> active i q" using assms by (simp add: active_def)
  have a: "active j (store_tail i v q) = active j q" for j
    by (cases "j = i") (auto simp: active_def store_tail_def)
  have t: "tail_of j (store_tail i v q) = tail_of j q" if "active j q" for j
    using that na by (cases "j = i") (auto simp: tail_of_def)
  have "{tail_of j (store_tail i v q) |j. active j (store_tail i v q)} = {tail_of j q |j. active j q}"
  proof (rule set_eqI)
    fix x
    show "x \<in> {tail_of j (store_tail i v q) |j. active j (store_tail i v q)}
            \<longleftrightarrow> x \<in> {tail_of j q |j. active j q}"
    proof
      assume "x \<in> {tail_of j (store_tail i v q) |j. active j (store_tail i v q)}"
      then obtain j where "x = tail_of j (store_tail i v q)" "active j (store_tail i v q)" by blast
      then have "x = tail_of j q" "active j q" using a[of j] t[of j] by simp_all
      then show "x \<in> {tail_of j q |j. active j q}" by blast
    next
      assume "x \<in> {tail_of j q |j. active j q}"
      then obtain j where "x = tail_of j q" "active j q" by blast
      then have "x = tail_of j (store_tail i v q)" "active j (store_tail i v q)"
        using a[of j] t[of j] by simp_all
      then show "x \<in> {tail_of j (store_tail i v q) |j. active j (store_tail i v q)}" by blast
    qed
  qed
  then show "min_tail_snapshot hv (store_tail i v q) = min_tail_snapshot hv q"
    by (simp only: min_tail_snapshot_Min)
  have "{tail_of j q |j. active j q \<and> j \<noteq> i} = {tail_of j q |j. active j q}"
    using na by auto
  then show "min_tail_snapshot hv q = Min (insert hv {tail_of j q |j. active j q \<and> j \<noteq> i})"
    by (simp only: min_tail_snapshot_Min)
qed

lemma make_consumer_mc_reuse:
  assumes il: "i < length (m_slots q)" and fr: "state (m_slots q ! i) = Free"
  shows "\<exists>j q2. make_consumer_mc q = (Some j, q2) \<and> j \<le> i \<and>
           ((\<forall>k<i. state (m_slots q ! k) \<noteq> Free) \<longrightarrow> j = i) \<and>
           m_slots q2 ! j = \<lparr>state = Active, tail = m_head_mc q\<rparr>"
proof -
  from il fr make_consumer_mc_total[of q] obtain j q2 where m: "make_consumer_mc q = (Some j, q2)"
    by blast
  from make_consumer_mc_Some[OF m]
  have jl: "j < length (m_slots q)" and jf: "state (m_slots q ! j) = Free"
    and before: "\<forall>k < j. state (m_slots q ! k) \<noteq> Free"
    and q2: "q2 = q\<lparr>m_slots := (m_slots q)[j := \<lparr>state = Active, tail = m_head_mc q\<rparr>]\<rparr>"
    by auto
  have ji: "j \<le> i"
  proof (rule ccontr)
    assume "\<not> j \<le> i"
    then have "i < j" by simp
    with before fr show False by blast
  qed
  have "j = i" if "\<forall>k<i. state (m_slots q ! k) \<noteq> Free"
  proof (rule ccontr)
    assume "j \<noteq> i"
    with ji have "j < i" by simp
    with that jf show False by blast
  qed
  moreover have "m_slots q2 ! j = \<lparr>state = Active, tail = m_head_mc q\<rparr>" using jl by (simp add: q2)
  ultimately show ?thesis using m ji by blast
qed

lemma slot_release_and_reuse:
  assumes h: "consumers_mc w h = Some c" and qa: "m_queue c = Some qa"
    and il: "m_slot_idx c < length (m_slots (queues_mc w qa))"
  shows "\<exists>w1. Consumer_mc_dtor h w = Some w1 \<and>
           m_slots (queues_mc w1 qa) ! m_slot_idx c = \<lparr>state = Free, tail = 0\<rparr> \<and>
           m_head_mc (queues_mc w1 qa) = m_head_mc (queues_mc w qa) \<and>
           (\<forall>hv v. min_tail_snapshot hv (store_tail (m_slot_idx c) v (queues_mc w1 qa))
                      = min_tail_snapshot hv (queues_mc w1 qa)) \<and>
           (\<forall>hv. min_tail_snapshot hv (queues_mc w1 qa)
                    = Min (insert hv {tail_of j (queues_mc w1 qa) |j.
                                        active j (queues_mc w1 qa) \<and> j \<noteq> m_slot_idx c})) \<and>
           fst (make_consumer_cas (m_slot_idx c) (queues_mc w1 qa)) \<and>
           (\<exists>j q2. make_consumer_mc (queues_mc w1 qa) = (Some j, q2) \<and> j \<le> m_slot_idx c \<and>
              ((\<forall>k < m_slot_idx c. state (m_slots (queues_mc w qa) ! k) \<noteq> Free) \<longrightarrow> j = m_slot_idx c) \<and>
              m_slots q2 ! j = \<lparr>state = Active, tail = m_head_mc (queues_mc w qa)\<rparr> \<and>
              (m_head_mc (queues_mc w qa) \<noteq> 0 \<longrightarrow> tail_of j q2 \<noteq> 0))"
proof -
  let ?i = "m_slot_idx c" and ?q = "queues_mc w qa"
  let ?q1 = "store_state ?i Free (store_tail ?i 0 ?q)"
  let ?w1 = "w\<lparr>queues_mc := (queues_mc w)(qa := ?q1), consumers_mc := (consumers_mc w)(h := None)\<rparr>"
  have d: "Consumer_mc_dtor h w = Some ?w1"
    using h qa il by (simp add: Consumer_mc_dtor_def consumer_dtor_def)
  have q1: "queues_mc ?w1 qa = ?q1" by simp
  have slot: "m_slots ?q1 ! ?i = \<lparr>state = Free, tail = 0\<rparr>"
    using il by (cases "m_slots ?q ! ?i") (simp add: store_state_def store_tail_def)
  have hq: "m_head_mc ?q1 = m_head_mc ?q" by simp
  have l1: "?i < length (m_slots ?q1)" using il by simp
  from slot have fr: "state (m_slots ?q1 ! ?i) = Free" by simp
  then have na: "state (m_slots ?q1 ! ?i) \<noteq> Active" by simp
  have cas: "fst (make_consumer_cas ?i ?q1)" using fr by (simp add: make_consumer_cas_def)
  have same: "state (m_slots ?q1 ! k) = state (m_slots ?q ! k)" if "k < ?i" for k
    using that by simp
  from make_consumer_mc_reuse[OF l1 fr] obtain j q2 where
    m: "make_consumer_mc ?q1 = (Some j, q2)" and ji: "j \<le> ?i"
    and eq: "(\<forall>k < ?i. state (m_slots ?q1 ! k) \<noteq> Free) \<longrightarrow> j = ?i"
    and s2: "m_slots q2 ! j = \<lparr>state = Active, tail = m_head_mc ?q1\<rparr>" by blast
  have eq': "(\<forall>k < ?i. state (m_slots ?q ! k) \<noteq> Free) \<longrightarrow> j = ?i" using eq same by simp
  have s2': "m_slots q2 ! j = \<lparr>state = Active, tail = m_head_mc ?q\<rparr>" using s2 hq by simp
  then have nz: "m_head_mc ?q \<noteq> 0 \<longrightarrow> tail_of j q2 \<noteq> 0" by (simp add: tail_of_def)
  have re: "\<exists>j q2. make_consumer_mc ?q1 = (Some j, q2) \<and> j \<le> ?i \<and>
              ((\<forall>k < ?i. state (m_slots ?q ! k) \<noteq> Free) \<longrightarrow> j = ?i) \<and>
              m_slots q2 ! j = \<lparr>state = Active, tail = m_head_mc ?q\<rparr> \<and>
              (m_head_mc ?q \<noteq> 0 \<longrightarrow> tail_of j q2 \<noteq> 0)"
    using m ji eq' s2' nz by blast
  show ?thesis
    apply (rule exI[of _ ?w1])
    apply (simp only: q1)
    apply (intro conjI allI)
          apply (rule d)
         apply (rule slot)
        apply (rule hq)
       apply (rule min_tail_snapshot_skips_free(1)[OF na])
      apply (rule min_tail_snapshot_skips_free(2)[OF na])
     apply (rule cas)
    apply (rule re)
    done
qed

text \<open>
  Claim C8. Destroying a consumer handle resets the cursor of its slot to zero and
  frees the slot, which takes it out of the minimum that the producer computes; a later
  \<^verbatim>\<open>make_consumer\<close> can reuse the slot, and the cursor of the new consumer starts at
  the then-current producer cursor. The release is as claimed. The cursor of the new
  consumer is the one \<^verbatim>\<open>make_consumer\<close> loaded before it claimed the slot: on a queue
  of two slots, after a first consumer has come and gone with the producer cursor at 1,
  a \<^verbatim>\<open>make_consumer\<close> that loads the cursor, and claims slot 0 after the producer has
  pushed 2, 3 and 4, activates the slot with cursor 1 while the producer cursor is 4;
  the new consumer then receives 4 and after it 3.
\<close>

theorem slot_reuse_interleaved:
  "spmc_atoms 2 [Whole Attach, Whole (PushMc 1), Whole (PopMc 0), Whole (Detach 0)]
     (SPMCQueue_init 2 1 (0::nat), None)
     = Some ([Attached 0, Accepted 1, Got 0 1, Detached 0],
             \<lparr>m_buffer_mc = [1, 0], m_head_mc = 1,
              m_slots = [\<lparr>state = Free, tail = 0\<rparr>], m_producer_claimed_mc = False\<rparr>,
             None) \<and>
   spmc_atoms 2
     [Whole Attach, Whole (PushMc 1), Whole (PopMc 0), Whole (Detach 0),
      AttachLoad, Whole (PushMc 2), Whole (PushMc 3), Whole (PushMc 4),
      AttachCas, AttachStoreTail, AttachStoreActive]
     (SPMCQueue_init 2 1 (0::nat), None)
     = Some ([Attached 0, Accepted 1, Got 0 1, Detached 0,
              Accepted 2, Accepted 3, Accepted 4, Attached 0],
             \<lparr>m_buffer_mc = [3, 4], m_head_mc = 4,
              m_slots = [\<lparr>state = Active, tail = 1\<rparr>], m_producer_claimed_mc = False\<rparr>,
             None) \<and>
   spmc_atoms 2
     [Whole Attach, Whole (PushMc 1), Whole (PopMc 0), Whole (Detach 0),
      AttachLoad, Whole (PushMc 2), Whole (PushMc 3), Whole (PushMc 4),
      AttachCas, AttachStoreTail, AttachStoreActive, Whole (PopMc 0), Whole (PopMc 0)]
     (SPMCQueue_init 2 1 (0::nat), None)
     = Some ([Attached 0, Accepted 1, Got 0 1, Detached 0,
              Accepted 2, Accepted 3, Accepted 4, Attached 0, Got 0 4, Got 0 3],
             \<lparr>m_buffer_mc = [3, 4], m_head_mc = 4,
              m_slots = [\<lparr>state = Active, tail = 3\<rparr>], m_producer_claimed_mc = False\<rparr>,
             None)"
  by code_simp

end
